theory Spec2Isabelle
  imports Main "HOL-Library.Word"
begin

section \<open>Strings, numbers and bytes of the extension\<close>

text \<open>
  A JavaScript string is a sequence of UTF-16 code units; \<open>length\<close>, \<open>slice\<close>, the
  regular expression of the decoder and \<open>charCodeAt\<close> all count code units. A code unit
  is modelled as a natural number, an \<open>ArrayBuffer\<close> as a list of 8-bit words.
  \<open>js\<close> writes an ASCII literal as such a string.
\<close>

type_synonym codeunit = nat
type_synonym jsstring = "codeunit list"
type_synonym byte = "8 word"
type_synonym arraybuffer = "byte list"

definition js :: "string \<Rightarrow> jsstring" where
  "js s = map of_char s"

text \<open>
  The numbers the settings store holds are written by \<open>options.js\<close> as
  \<open>parseInt(...) || default\<close>: integer-valued, or \<open>NaN\<close> when some other writer put
  one there. \<open>Number(x)\<close> of a number is the number itself.
\<close>

datatype number = NaN | Num int

definition Number :: "number \<Rightarrow> number" where
  "Number x = x"

text \<open>\<open>x || d\<close> on numbers: \<open>NaN\<close> and \<open>0\<close> are falsy.\<close>

definition number_or :: "number \<Rightarrow> int \<Rightarrow> int" where
  "number_or x d = (case x of NaN \<Rightarrow> d | Num n \<Rightarrow> (if n = 0 then d else n))"

section \<open>Segmenter: \<open>splitText\<close> (background.js) and \<open>splitTextPlain\<close> (popup.js)\<close>

text \<open>
  \<open>String.prototype.slice(start, end)\<close> on integer arguments: a negative index counts
  from the end, both indices are clamped to \<open>[0, length]\<close>, and an empty span gives
  the empty string.
\<close>

definition slice_str :: "jsstring \<Rightarrow> int \<Rightarrow> int \<Rightarrow> jsstring" where
  "slice_str text start end =
     (let len = int (length text);
          from = (if start < 0 then max (len + start) 0 else min start len);
          to = (if end < 0 then max (len + end) 0 else min end len)
      in take (nat (to - from)) (drop (nat from) text))"

text \<open>
  The \<open>while (start < text.length)\<close> loop, with the loop variables \<open>start\<close> and
  \<open>segments\<close> as arguments. The loop has no bound of its own, so it is a partial
  function: \<open>None\<close> is "never returns".
\<close>

partial_function (option) splitText_loop ::
  "jsstring \<Rightarrow> int \<Rightarrow> int \<Rightarrow> jsstring list \<Rightarrow> jsstring list option" where
  "splitText_loop text maxLength start segments =
     (if start < int (length text)
      then splitText_loop text maxLength (start + maxLength)
             (segments @ [slice_str text start (start + maxLength)])
      else Some segments)"

declare splitText_loop.simps [code]

definition splitText :: "jsstring \<Rightarrow> int \<Rightarrow> jsstring list option" where
  "splitText text maxLength = splitText_loop text maxLength 0 []"

text \<open>\<open>splitTextPlain\<close> of popup.js has the body of \<open>splitText\<close>, line for line.\<close>

definition splitTextPlain :: "jsstring \<Rightarrow> int \<Rightarrow> jsstring list option" where
  "splitTextPlain text maxLength = splitText text maxLength"

text \<open>
  What both callers pass as \<open>maxLength\<close>:
  \<open>Number(settings.maxLength) || 5000\<close>.
\<close>

definition effective_maxLength :: "number \<Rightarrow> int" where
  "effective_maxLength m = number_or (Number m) 5000"

section \<open>Synthesis client: \<open>synthesizeSegment\<close> and \<open>synthesizeSegmentLocal\<close>\<close>

record settings =
  apiKey :: jsstring
  resourceId :: jsstring
  speaker :: jsstring
  additions :: jsstring
  format :: jsstring
  sampleRate :: number
  maxLength :: number

text \<open>
  The request handed to \<open>fetch\<close>: the two credential headers and the \<open>body\<close> object
  before \<open>JSON.stringify\<close>. The \<open>additions\<close> key is present or absent.
\<close>

record request =
  x_api_key :: jsstring
  x_api_resource_id :: jsstring
  req_text :: jsstring
  req_speaker :: jsstring
  req_additions :: "jsstring option"
  req_format :: jsstring
  req_sample_rate :: number

text \<open>
  The response as the code reads it: \<open>ok\<close>, \<open>status\<close>, \<open>statusText\<close>,
  \<open>headers.get('Content-Type')\<close> (\<open>None\<close> is \<open>null\<close>; a header value is a byte
  string, so its characters are 8-bit), and the body under its two readers
  \<open>text()\<close> and \<open>arrayBuffer()\<close>.
\<close>

record response =
  ok :: bool
  status :: nat
  statusText :: jsstring
  content_type :: "string option"
  text_body :: jsstring
  arrayBuffer_body :: arraybuffer

datatype fetch_outcome = Rejected | Responded response

text \<open>
  The errors of the pipeline. The source throws \<open>Error\<close> objects that differ in their
  message only:
  \<^item> \<open>PreconditionError\<close>: "API key, resource ID and speaker must be configured in the
    options page."
  \<^item> \<open>RemoteError status statusText\<close>: "HTTP <status> - <statusText>"
  \<^item> \<open>DecodeError\<close>: "No audio data returned from API."
  \<^item> \<open>NetworkError\<close>: the rejection of \<open>fetch\<close> itself
  \<^item> \<open>RangeError\<close>: what \<open>TypedArray.prototype.set\<close> throws when the source does
    not fit at the offset.
\<close>

datatype error =
    PreconditionError
  | RemoteError nat jsstring
  | DecodeError
  | NetworkError
  | RangeError

text \<open>
  The transport is a parameter: it answers a request, and its answer may depend on the
  requests made before (the log). \<open>atob\<close> is a parameter too: \<open>None\<close> is the
  \<open>InvalidCharacterError\<close> it throws.
\<close>

type_synonym transport = "request list \<Rightarrow> request \<Rightarrow> fetch_outcome"
type_synonym atob_fn = "jsstring \<Rightarrow> jsstring option"

definition build_request :: "jsstring \<Rightarrow> settings \<Rightarrow> request" where
  "build_request segment s =
     \<lparr> x_api_key = apiKey s,
       x_api_resource_id = resourceId s,
       req_text = segment,
       req_speaker = speaker s,
       req_additions = (if additions s \<noteq> [] then Some (additions s) else None),
       req_format = format s,
       req_sample_rate = Number (sampleRate s) \<rparr>"

subsection \<open>Content type\<close>

text \<open>\<open>toLowerCase\<close> on the 8-bit characters of a header value.\<close>

definition toLowerCase_char :: "char \<Rightarrow> char" where
  "toLowerCase_char c =
     (let n = (of_char c :: nat)
      in if (65 \<le> n \<and> n \<le> 90) \<or> (192 \<le> n \<and> n \<le> 222 \<and> n \<noteq> 215)
         then char_of (n + 32) else c)"

definition toLowerCase :: "string \<Rightarrow> string" where
  "toLowerCase s = map toLowerCase_char s"

fun includes_str :: "'a list \<Rightarrow> 'a list \<Rightarrow> bool" where
  "includes_str [] needle = (needle = [])"
| "includes_str (x # xs) needle =
     (take (length needle) (x # xs) = needle \<or> includes_str xs needle)"

text \<open>
  \<open>const contentType = response.headers.get('Content-Type') || ''\<close>, lowered, and the
  test of the \<open>if\<close>.
\<close>

definition lowerType :: "response \<Rightarrow> string" where
  "lowerType r = toLowerCase (case content_type r of None \<Rightarrow> [] | Some h \<Rightarrow> h)"

definition is_text_type :: "response \<Rightarrow> bool" where
  "is_text_type r =
     (includes_str (lowerType r) ''application/json'' \<or> includes_str (lowerType r) ''text'')"

subsection \<open>The regular expression \<open>/"data":"([^"]*)"/g\<close>\<close>

definition quote :: codeunit where
  "quote = 34"

definition data_prefix :: jsstring where
  \<open>data_prefix = js ''"data":"''\<close>

text \<open>
  One attempt of the pattern at index \<open>i\<close>: the eight literal code units, the longest
  run of code units other than the quote (the class is greedy, and giving back part of
  the run never helps: the next code unit would not be a quote), then the closing quote.
  The result is the capture and the index after the match.
\<close>

definition regex_match_at :: "jsstring \<Rightarrow> nat \<Rightarrow> (jsstring \<times> nat) option" where
  "regex_match_at text i =
     (if take 8 (drop i text) = data_prefix
      then (let rest = drop (i + 8) text;
                captured = takeWhile (\<lambda>c. c \<noteq> quote) rest
            in if length captured < length rest
               then Some (captured, i + 8 + length captured + 1)
               else None)
      else None)"

text \<open>
  \<open>regex.exec(text)\<close> of a global expression with \<open>lastIndex = i\<close>: the first index from
  \<open>i\<close> on where the pattern matches; \<open>None\<close> is \<open>null\<close>.
\<close>

function regex_exec :: "jsstring \<Rightarrow> nat \<Rightarrow> (jsstring \<times> nat) option" where
  "regex_exec text i =
     (if length text < i then None
      else (case regex_match_at text i of
              Some m \<Rightarrow> Some m
            | None \<Rightarrow> regex_exec text (Suc i)))"
  by pat_completeness auto
termination
  by (relation "measure (\<lambda>(text, i). Suc (length text) - i)") auto

text \<open>
  The \<open>while ((match = regex.exec(text)) !== null)\<close> loop; its state is \<open>lastIndex\<close>,
  \<open>audioChunks\<close> and \<open>totalLength\<close>. A chunk is the \<open>Uint8Array\<close> filled from
  \<open>binaryStr.charCodeAt(i)\<close>.
\<close>

definition to_bytes :: "jsstring \<Rightarrow> arraybuffer" where
  "to_bytes binaryStr = map of_nat binaryStr"

function exec_loop ::
  "atob_fn \<Rightarrow> jsstring \<Rightarrow> nat \<Rightarrow> arraybuffer list \<Rightarrow> nat \<Rightarrow> arraybuffer list \<times> nat" where
  "exec_loop atob text lastIndex audioChunks totalLength =
     (case regex_exec text lastIndex of
        None \<Rightarrow> (audioChunks, totalLength)
      | Some (b64, lastIndex') \<Rightarrow>
          (if b64 \<noteq> [] \<and> b64 \<noteq> js ''null''
           then (case atob b64 of
                   Some binaryStr \<Rightarrow>
                     (let bytes = to_bytes binaryStr
                      in exec_loop atob text lastIndex' (audioChunks @ [bytes])
                           (totalLength + length bytes))
                 | None \<Rightarrow> exec_loop atob text lastIndex' audioChunks totalLength)
           else exec_loop atob text lastIndex' audioChunks totalLength))"
  by pat_completeness auto
termination
proof -
  have adv: "i < j \<and> j \<le> length body" if "regex_exec body i = Some (v, j)" for body i v j
    using that
  proof (induction body i rule: regex_exec.induct)
    case (1 body i)
    show ?case
    proof (cases "regex_match_at body i")
      case None
      with 1 show ?thesis
        by (auto split: if_splits)
    next
      case (Some m)
      with 1(2) have m: "regex_match_at body i = Some (v, j)" "i \<le> length body"
        by (auto split: if_splits)
      let ?rest = "drop (i + 8) body"
      let ?cap = "takeWhile (\<lambda>c. c \<noteq> quote) ?rest"
      from m(1) have "length ?cap < length ?rest" "j = i + 8 + length ?cap + 1"
        by (auto simp: regex_match_at_def Let_def split: if_splits)
      then show ?thesis by simp
    qed
  qed
  show ?thesis
    by (relation "measure (\<lambda>(atob, text, lastIndex, audioChunks, totalLength).
                     Suc (length text) - lastIndex)")
       (auto simp del: regex_exec.simps dest!: adv)
qed

declare regex_exec.simps [simp del]
declare exec_loop.simps [simp del]

text \<open>
  \<open>merged.set(chunk, offset)\<close> and the \<open>for (const chunk of audioChunks)\<close> loop over
  \<open>merged = new Uint8Array(totalLength)\<close>.
\<close>

definition typed_array_set :: "arraybuffer \<Rightarrow> arraybuffer \<Rightarrow> nat \<Rightarrow> error + arraybuffer" where
  "typed_array_set target source offset =
     (if length target < offset + length source then Inl RangeError
      else Inr (take offset target @ source @ drop (offset + length source) target))"

fun merge_loop :: "arraybuffer list \<Rightarrow> arraybuffer \<Rightarrow> nat \<Rightarrow> error + arraybuffer" where
  "merge_loop [] merged offset = Inr merged"
| "merge_loop (chunk # chunks) merged offset =
     (case typed_array_set merged chunk offset of
        Inl e \<Rightarrow> Inl e
      | Inr merged' \<Rightarrow> merge_loop chunks merged' (offset + length chunk))"

subsection \<open>Response decoder\<close>

text \<open>
  The part of \<open>synthesizeSegment\<close> after the status check (background.js, lines 80 to
  123; popup.js, lines 139 to 175).
\<close>

definition decodeResponse :: "atob_fn \<Rightarrow> response \<Rightarrow> error + arraybuffer" where
  "decodeResponse atob r =
     (if is_text_type r
      then (case exec_loop atob (text_body r) 0 [] 0 of
              (audioChunks, totalLength) \<Rightarrow>
                if audioChunks = [] then Inl DecodeError
                else merge_loop audioChunks (replicate totalLength 0) 0)
      else Inr (arrayBuffer_body r))"

text \<open>
  One synthesis call. The second component is the transport's log, one request longer.
\<close>

definition synthesizeSegment ::
  "transport \<Rightarrow> atob_fn \<Rightarrow> jsstring \<Rightarrow> settings \<Rightarrow> request list
     \<Rightarrow> (error + arraybuffer) \<times> request list" where
  "synthesizeSegment fetch atob segment s log =
     (let req = build_request segment s
      in (case fetch log req of
            Rejected \<Rightarrow> Inl NetworkError
          | Responded r \<Rightarrow>
              if \<not> ok r then Inl (RemoteError (status r) (statusText r))
              else decodeResponse atob r,
          log @ [req]))"

text \<open>
  \<open>synthesizeSegmentLocal\<close> of popup.js has the same body; its expression
  \<open>/"data":"([^\"]*)"/g\<close> escapes the quote in the class and matches the same strings.
\<close>

definition synthesizeSegmentLocal ::
  "transport \<Rightarrow> atob_fn \<Rightarrow> jsstring \<Rightarrow> settings \<Rightarrow> request list
     \<Rightarrow> (error + arraybuffer) \<times> request list" where
  "synthesizeSegmentLocal fetch atob segment s log = synthesizeSegment fetch atob segment s log"

subsection \<open>The decoder in the words of the specification\<close>

text \<open>
  Section 4.2 of the specification: scan the text for every occurrence of
  \<open>"data":"<value>"\<close> in order of appearance (an occurrence starts where the last one
  ended), decode each value that is non-empty and not \<open>null\<close>, drop the values that do
  not decode, concatenate the chunks in match order, and fail when there is none.
  The raw bytes of a decoded value are the code units of the binary string \<open>atob\<close>
  returns, one byte each, written here as \<open>map of_nat\<close> and not through any function of
  the source's model. These definitions follow those words and are compared with the
  source's loops below.
\<close>

function data_occurrences :: "jsstring \<Rightarrow> jsstring list" where
  "data_occurrences text =
     (if text = [] then []
      else if take 8 text = data_prefix \<and> quote \<in> set (drop 8 text)
      then takeWhile (\<lambda>c. c \<noteq> quote) (drop 8 text)
             # data_occurrences (tl (dropWhile (\<lambda>c. c \<noteq> quote) (drop 8 text)))
      else data_occurrences (tl text))"
  by pat_completeness auto
termination
proof (relation "measure length", goal_cases)
  case 1
  show ?case by simp
next
  case (2 t)
  have "length (dropWhile (\<lambda>c. c \<noteq> quote) (drop 8 t)) \<le> length (drop 8 t)"
    by (rule length_dropWhile_le)
  with 2 show ?case by (cases t) auto
next
  case (3 t)
  then show ?case by (cases t) auto
qed

declare data_occurrences.simps [simp del]

definition decoded_chunks :: "atob_fn \<Rightarrow> jsstring list \<Rightarrow> arraybuffer list" where
  "decoded_chunks atob values =
     List.map_filter
       (\<lambda>v. if v \<noteq> [] \<and> v \<noteq> js ''null''
            then map_option (map of_nat) (atob v) else None)
       values"

definition decode_text_spec :: "atob_fn \<Rightarrow> jsstring \<Rightarrow> error + arraybuffer" where
  "decode_text_spec atob text =
     (let chunks = decoded_chunks atob (data_occurrences text)
      in if chunks = [] then Inl DecodeError else Inr (concat chunks))"

text \<open>The wire form of one object with a \<open>data\<close> field, as in section 8.\<close>

definition data_object :: "jsstring \<Rightarrow> jsstring" where
  \<open>data_object v = js ''{"data":"'' @ v @ js ''"}''\<close>

subsection \<open>The browser's \<open>atob\<close>\<close>

text \<open>
  The theorems hold for every \<open>atob\<close>. To run the decoder on concrete bodies, this is
  the forgiving-base64 decoding that browsers implement: ASCII whitespace is removed, up
  to two trailing \<open>=\<close> go when the length is a multiple of four, a length of one
  modulo four or a code unit outside the alphabet is an error, and the sextets are
  packed into bytes, the spare bits of a last partial group being dropped.
\<close>

definition is_ascii_whitespace :: "codeunit \<Rightarrow> bool" where
  "is_ascii_whitespace c = (c = 9 \<or> c = 10 \<or> c = 12 \<or> c = 13 \<or> c = 32)"

definition base64_value :: "codeunit \<Rightarrow> nat option" where
  "base64_value c =
     (if 65 \<le> c \<and> c \<le> 90 then Some (c - 65)
      else if 97 \<le> c \<and> c \<le> 122 then Some (c - 71)
      else if 48 \<le> c \<and> c \<le> 57 then Some (c + 4)
      else if c = 43 then Some 62
      else if c = 47 then Some 63
      else None)"

definition strip_padding :: "jsstring \<Rightarrow> jsstring" where
  "strip_padding d =
     (if length d mod 4 = 0 \<and> d \<noteq> [] \<and> last d = 61
      then (let d1 = butlast d in if d1 \<noteq> [] \<and> last d1 = 61 then butlast d1 else d1)
      else d)"

fun sextets_to_bytes :: "nat list \<Rightarrow> nat list" where
  "sextets_to_bytes (a # b # c # d # rest) =
     (let n = ((a * 64 + b) * 64 + c) * 64 + d
      in (n div 65536) # (n div 256 mod 256) # (n mod 256) # sextets_to_bytes rest)"
| "sextets_to_bytes [a, b, c] =
     (let n = (a * 64 + b) * 64 + c in [n div 1024, n div 4 mod 256])"
| "sextets_to_bytes [a, b] = [(a * 64 + b) div 16]"
| "sextets_to_bytes [a] = []"
| "sextets_to_bytes [] = []"

definition atob_forgiving :: atob_fn where
  "atob_forgiving data =
     (let d = strip_padding (filter (\<lambda>c. \<not> is_ascii_whitespace c) data)
      in if length d mod 4 = 1 then None
         else if list_ex (\<lambda>c. base64_value c = None) d then None
         else Some (sextets_to_bytes (map (\<lambda>c. the (base64_value c)) d)))"

section \<open>Synthesis orchestrator\<close>

text \<open>
  The \<open>for\<close> loop over the segments (popup.js, lines 189 to 194; background.js, lines
  151 to 154): an exception of the \<open>await\<close> leaves the loop, and the buffers pushed so
  far are lost with it. The loop is the same in both files but for the function it
  awaits, which is its first argument here.
\<close>

fun synthesize_loop ::
  "(jsstring \<Rightarrow> request list \<Rightarrow> (error + arraybuffer) \<times> request list)
     \<Rightarrow> jsstring list \<Rightarrow> arraybuffer list \<Rightarrow> request list
     \<Rightarrow> (error + arraybuffer list) \<times> request list" where
  "synthesize_loop synthesize [] buffers log = (Inr buffers, log)"
| "synthesize_loop synthesize (segment # segments) buffers log =
     (case synthesize segment log of
        (Inl e, log') \<Rightarrow> (Inl e, log')
      | (Inr buffer, log') \<Rightarrow> synthesize_loop synthesize segments (buffers @ [buffer]) log')"

text \<open>
  \<open>synthesizeAll\<close> of popup.js. The settings are what \<open>getSettingsFromStorage\<close>
  resolved to, the log is the transport's log before the call. The result is
  \<open>None\<close> when \<open>splitTextPlain\<close> never returns, else the value returned
  (\<open>{ buffers, format }\<close>) or the error thrown, with the log after the call. The
  status line the loop writes is display only and left out.
\<close>

definition synthesizeAll ::
  "transport \<Rightarrow> atob_fn \<Rightarrow> settings \<Rightarrow> jsstring \<Rightarrow> request list
     \<Rightarrow> ((error + arraybuffer list \<times> jsstring) \<times> request list) option" where
  "synthesizeAll fetch atob s text log =
     (if apiKey s = [] \<or> resourceId s = [] \<or> speaker s = []
      then Some (Inl PreconditionError, log)
      else (case splitTextPlain text (effective_maxLength (maxLength s)) of
              None \<Rightarrow> None
            | Some segments \<Rightarrow>
                (case synthesize_loop (\<lambda>segment. synthesizeSegmentLocal fetch atob segment s)
                        segments [] log of
                   (Inl e, log') \<Rightarrow> Some (Inl e, log')
                 | (Inr buffers, log') \<Rightarrow> Some (Inr (buffers, format s), log'))))"

text \<open>
  The message listener of background.js. A message has a \<open>type\<close> and maybe a \<open>text\<close>;
  the listener ignores a message of another type, and turns every exception into an
  \<open>{ error }\<close> reply.
\<close>

record message =
  msg_type :: jsstring
  msg_text :: "jsstring option"

datatype reply =
    Ignored
  | Synthesized "arraybuffer list" jsstring
  | ErrorReply error

definition onMessage ::
  "transport \<Rightarrow> atob_fn \<Rightarrow> settings \<Rightarrow> message \<Rightarrow> request list
     \<Rightarrow> (reply \<times> request list) option" where
  "onMessage fetch atob s m log =
     (if msg_type m \<noteq> js ''synthesize'' then Some (Ignored, log)
      else if apiKey s = [] \<or> resourceId s = [] \<or> speaker s = []
      then Some (ErrorReply PreconditionError, log)
      else (let text = (case msg_text m of None \<Rightarrow> [] | Some t \<Rightarrow> t)
            in case splitText text (effective_maxLength (maxLength s)) of
                 None \<Rightarrow> None
               | Some segments \<Rightarrow>
                   (case synthesize_loop (\<lambda>segment. synthesizeSegment fetch atob segment s)
                           segments [] log of
                      (Inl e, log') \<Rightarrow> Some (ErrorReply e, log')
                    | (Inr buffers, log') \<Rightarrow> Some (Synthesized buffers (format s), log'))))"

section \<open>Playback controller\<close>

text \<open>
  The module state of popup.js (\<open>currentUrls\<close>, \<open>currentIndex\<close>), the audio element
  (its source, whether it is playing, the URL its \<open>onended\<close> closure holds), the two
  buttons, and the object-URL store of the browser: the next fresh URL, the URLs
  created with their blobs, and the logs of the URLs revoked and played.
\<close>

type_synonym url = nat
type_synonym blob = "arraybuffer \<times> jsstring"

record playback =
  currentUrls :: "url list"
  currentIndex :: nat
  player_src :: "url option"
  player_playing :: bool
  player_onended :: "url option"
  startBtn_disabled :: bool
  stopBtn_disabled :: bool
  next_url :: url
  created :: "(url \<times> blob) list"
  revoked :: "url list"
  played :: "url list"

text \<open>
  The state when the popup has loaded: \<open>let currentUrls = []; let currentIndex = 0\<close>,
  nothing playing, no URL created yet.
\<close>

definition idle :: playback where
  "idle = \<lparr> currentUrls = [], currentIndex = 0, player_src = None,
            player_playing = False, player_onended = None,
            startBtn_disabled = False, stopBtn_disabled = True,
            next_url = 0, created = [], revoked = [], played = [] \<rparr>"

definition createObjectURL :: "blob \<Rightarrow> playback \<Rightarrow> url \<times> playback" where
  "createObjectURL b st =
     (next_url st,
      st\<lparr> next_url := Suc (next_url st), created := created st @ [(next_url st, b)] \<rparr>)"

definition revokeObjectURL :: "url \<Rightarrow> playback \<Rightarrow> playback" where
  "revokeObjectURL u st = st\<lparr> revoked := revoked st @ [u] \<rparr>"

text \<open>
  \<open>playNext\<close>: past the end of the queue it resets the two buttons and returns; else it
  loads and plays the URL at the cursor and installs the \<open>onended\<close> closure. A
  \<open>play()\<close> that rejects is logged by the source and changes nothing else: no
  \<open>ended\<close> event follows it. The status line is display only and left out.
\<close>

definition playNext :: "playback \<Rightarrow> playback" where
  "playNext st =
     (if length (currentUrls st) \<le> currentIndex st
      then st\<lparr> startBtn_disabled := False, stopBtn_disabled := True \<rparr>
      else (let url = currentUrls st ! currentIndex st
            in st\<lparr> player_src := Some url, player_playing := True,
                    played := played st @ [url], player_onended := Some url \<rparr>))"

text \<open>The closure assigned to \<open>audioPlayer.onended\<close>, and the \<open>ended\<close> event that runs it.\<close>

definition onended_handler :: "url \<Rightarrow> playback \<Rightarrow> playback" where
  "onended_handler url st =
     playNext ((revokeObjectURL url st)\<lparr> currentIndex := currentIndex st + 1 \<rparr>)"

definition ended :: "playback \<Rightarrow> playback" where
  "ended st =
     (if player_playing st
      then (case player_onended st of
              None \<Rightarrow> st\<lparr> player_playing := False \<rparr>
            | Some url \<Rightarrow> onended_handler url (st\<lparr> player_playing := False \<rparr>))
      else st)"

text \<open>The \<open>for (let i = currentIndex; i < currentUrls.length; i++)\<close> loop of \<open>stopPlayback\<close>.\<close>

function revoke_loop :: "nat \<Rightarrow> playback \<Rightarrow> playback" where
  "revoke_loop i st =
     (if i < length (currentUrls st)
      then revoke_loop (Suc i) (revokeObjectURL (currentUrls st ! i) st)
      else st)"
  by pat_completeness auto
termination
  by (relation "measure (\<lambda>(i, st). length (currentUrls st) - i)")
     (auto simp: revokeObjectURL_def)

declare revoke_loop.simps [simp del]

definition stopPlayback :: "playback \<Rightarrow> playback" where
  "stopPlayback st =
     (let st1 = st\<lparr> player_playing := False, player_src := None \<rparr>;
          st2 = revoke_loop (currentIndex st1) st1
      in st2\<lparr> currentUrls := [], currentIndex := 0,
              startBtn_disabled := False, stopBtn_disabled := True \<rparr>)"

text \<open>
  The start of playback (popup.js, lines 240 to 246): one object URL per buffer, in
  order, then \<open>currentIndex = 0\<close> and \<open>playNext()\<close>. The MIME type is what the caller
  computed from the format.
\<close>

fun create_urls :: "jsstring \<Rightarrow> arraybuffer list \<Rightarrow> playback \<Rightarrow> url list \<times> playback" where
  "create_urls mime [] st = ([], st)"
| "create_urls mime (buffer # buffers) st =
     (case createObjectURL (buffer, mime) st of
        (u, st1) \<Rightarrow> (case create_urls mime buffers st1 of
                       (us, st2) \<Rightarrow> (u # us, st2)))"

definition start_playback :: "jsstring \<Rightarrow> arraybuffer list \<Rightarrow> playback \<Rightarrow> playback" where
  "start_playback mime buffers st =
     (case create_urls mime buffers st of
        (urls, st1) \<Rightarrow> playNext (st1\<lparr> currentUrls := urls, currentIndex := 0 \<rparr>))"

text \<open>The events of the controller, and a run of them from left to right.\<close>

datatype event = Start jsstring "arraybuffer list" | Ended | Cancel

fun step :: "playback \<Rightarrow> event \<Rightarrow> playback" where
  "step st (Start mime buffers) = start_playback mime buffers st"
| "step st Ended = ended st"
| "step st Cancel = stopPlayback st"

definition run :: "event list \<Rightarrow> playback \<Rightarrow> playback" where
  "run events st = foldl step st events"

text \<open>
  The URLs a start creates, and the two shapes of the controller's state while a queue
  lives: playing index \<open>k\<close>, and finished. \<open>st0\<close> is the state before the start.
\<close>

definition queue_urls :: "playback \<Rightarrow> nat \<Rightarrow> url list" where
  "queue_urls st n = [next_url st ..< next_url st + n]"

definition playing_at :: "playback \<Rightarrow> url list \<Rightarrow> nat \<Rightarrow> playback \<Rightarrow> bool" where
  "playing_at st0 urls k st \<longleftrightarrow>
     k < length urls \<and> currentUrls st = urls \<and> currentIndex st = k
     \<and> player_playing st \<and> player_onended st = Some (urls ! k)
     \<and> revoked st = revoked st0 @ take k urls
     \<and> played st = played st0 @ take (Suc k) urls"

definition finished_at :: "playback \<Rightarrow> url list \<Rightarrow> playback \<Rightarrow> bool" where
  "finished_at st0 urls st \<longleftrightarrow>
     currentUrls st = urls \<and> currentIndex st = length urls
     \<and> \<not> player_playing st \<and> \<not> startBtn_disabled st
     \<and> revoked st = revoked st0 @ urls
     \<and> played st = played st0 @ urls"

section \<open>Concrete inputs\<close>

text \<open>
  Settings, responses and transports on which the definitions above are run: a JSON
  response with a given body, a binary response with given bytes, a response with an
  error status, a transport whose second call fails, one that always answers with audio,
  and two settings records, the second with a format outside the documented ones and
  \<open>NaN\<close> as its sample rate.
\<close>

definition json_response :: "jsstring \<Rightarrow> response" where
  "json_response body =
     \<lparr> ok = True, status = 200, statusText = js ''OK'',
       content_type = Some ''application/json; charset=utf-8'',
       text_body = body, arrayBuffer_body = map of_nat body \<rparr>"

definition audio_response :: "arraybuffer \<Rightarrow> response" where
  "audio_response bytes =
     \<lparr> ok = True, status = 200, statusText = js ''OK'',
       content_type = Some ''audio/mpeg'',
       text_body = [], arrayBuffer_body = bytes \<rparr>"

definition error_response :: response where
  "error_response =
     \<lparr> ok = False, status = 500, statusText = js ''Internal Server Error'',
       content_type = Some ''text/plain'',
       text_body = [], arrayBuffer_body = [] \<rparr>"

definition second_call_fails :: transport where
  "second_call_fails log req =
     (if length log = 1 then Responded error_response
      else Responded (audio_response [73, 68, 51]))"

definition always_audio :: transport where
  "always_audio log req = Responded (audio_response [73, 68, 51])"

definition demo_settings :: settings where
  "demo_settings =
     \<lparr> apiKey = js ''key'', resourceId = js ''res'', speaker = js ''voice'',
       additions = [], format = js ''mp3'', sampleRate = Num 24000, maxLength = Num 3 \<rparr>"

definition odd_settings :: settings where
  "odd_settings =
     \<lparr> apiKey = js ''key'', resourceId = js ''res'', speaker = js ''voice'',
       additions = js ''{}'', format = js ''wav'', sampleRate = NaN, maxLength = Num 3 \<rparr>"

section \<open>Properties of the segmenter\<close>

lemma slice_str_forward:
  assumes "0 \<le> start" "0 < L" "start < int (length T)"
  shows "slice_str T start (start + L) = take (nat L) (drop (nat start) T)"
  using assms by (auto simp: slice_str_def Let_def min_def)

text \<open>
  With a positive step the loop returns: from \<open>start\<close> it appends segments that are
  non-empty, no longer than the step, and together the rest of the text.
\<close>

lemma splitText_loop_positive:
  assumes L: "0 < L"
  shows "0 \<le> start \<Longrightarrow>
         \<exists>rest. splitText_loop T L start acc = Some (acc @ rest)
              \<and> concat rest = drop (nat start) T
              \<and> (\<forall>s \<in> set rest. s \<noteq> [] \<and> int (length s) \<le> L)"
proof (induction "nat (int (length T) - start)" arbitrary: start acc rule: less_induct)
  case less
  show ?case
  proof (cases "start < int (length T)")
    case False
    then show ?thesis using less.prems
      by (subst splitText_loop.simps) simp
  next
    case True
    let ?s = "slice_str T start (start + L)"
    have s: "?s = take (nat L) (drop (nat start) T)"
      using slice_str_forward[OF less.prems L True] .
    have "nat (int (length T) - (start + L)) < nat (int (length T) - start)"
      using True L by linarith
    from less.hyps[OF this, of "acc @ [?s]"] less.prems L
    obtain rest where r:
      "splitText_loop T L (start + L) (acc @ [?s]) = Some ((acc @ [?s]) @ rest)"
      "concat rest = drop (nat (start + L)) T"
      "\<forall>s \<in> set rest. s \<noteq> [] \<and> int (length s) \<le> L"
      by auto
    have ne: "?s \<noteq> []" using True less.prems L by (simp add: s)
    have le: "int (length ?s) \<le> L" using L by (simp add: s)
    have "nat (start + L) = nat L + nat start" using less.prems L by linarith
    then have cc: "concat (?s # rest) = drop (nat start) T"
      using r(2) by (simp add: s drop_drop[symmetric] del: drop_drop)
    have "splitText_loop T L start acc = Some (acc @ (?s # rest))"
      using True r(1) by (subst splitText_loop.simps) simp
    with cc ne le r(3) show ?thesis
      by (intro exI[of _ "?s # rest"]) simp
  qed
qed

text \<open>
  C1. For every text \<open>T\<close> and every positive integer \<open>L\<close>, the segmenter (under both of
  its names) returns a sequence of non-empty strings, each of length at most \<open>L\<close>,
  whose concatenation in order is \<open>T\<close>; for the empty text the sequence is empty.
\<close>

theorem splitText_lossless_bounded:
  assumes "0 < L"
  shows "\<exists>segs. splitText T L = Some segs \<and> splitTextPlain T L = Some segs
           \<and> concat segs = T
           \<and> (\<forall>s \<in> set segs. s \<noteq> [] \<and> int (length s) \<le> L)
           \<and> (T = [] \<longrightarrow> segs = [])"
proof -
  from splitText_loop_positive[OF assms, of 0 T "[]"]
  obtain rest where r: "splitText_loop T L 0 [] = Some rest" "concat rest = T"
    "\<forall>s \<in> set rest. s \<noteq> [] \<and> int (length s) \<le> L"
    by auto
  have "T = [] \<longrightarrow> rest = []" using r(2,3) by (cases rest) auto
  with r show ?thesis by (auto simp: splitText_def splitTextPlain_def)
qed

theorem splitText_lossless_bounded_witness:
  "(0::int) < 3
   \<and> splitText (js ''abcdefg'') 3 = Some [js ''abc'', js ''def'', js ''g'']
   \<and> (\<exists>segs. splitText (js ''abcdefg'') 3 = Some segs
           \<and> splitTextPlain (js ''abcdefg'') 3 = Some segs
           \<and> concat segs = js ''abcdefg''
           \<and> (\<forall>s \<in> set segs. s \<noteq> [] \<and> int (length s) \<le> 3)
           \<and> (js ''abcdefg'' = [] \<longrightarrow> segs = []))"
proof -
  have h: "(0::int) < 3" by simp
  have e: "splitText (js ''abcdefg'') 3 = Some [js ''abc'', js ''def'', js ''g'']"
    by code_simp
  show ?thesis
    using h e splitText_lossless_bounded[OF h, of "js ''abcdefg''"] by simp
qed

text \<open>
  With a step that is not positive the loop makes no progress on a text that is not
  empty: no result is ever returned.
\<close>

lemma splitText_loop_nonpositive:
  assumes "splitText_loop T L start acc = Some y"
  shows "\<not> (L \<le> 0 \<and> start < int (length T))"
proof (rule splitText_loop.raw_induct
    [where P = "\<lambda>T L start acc y. \<not> (L \<le> 0 \<and> start < int (length T))", OF _ assms])
  fix f :: "jsstring \<Rightarrow> int \<Rightarrow> int \<Rightarrow> jsstring list \<Rightarrow> jsstring list option"
  fix T L start acc y
  assume ih: "\<And>T L start acc y.
    f T L start acc = Some y \<Longrightarrow> \<not> (L \<le> 0 \<and> start < int (length T))"
  assume unfolded: "(if start < int (length T)
      then f T L (start + L) (acc @ [slice_str T start (start + L)])
      else Some acc) = Some y"
  show "\<not> (L \<le> 0 \<and> start < int (length T))"
  proof
    assume a: "L \<le> 0 \<and> start < int (length T)"
    then have "f T L (start + L) (acc @ [slice_str T start (start + L)]) = Some y"
      using unfolded by simp
    from ih[OF this] a show False by simp
  qed
qed

lemma splitText_nonpositive_diverges:
  "L \<le> 0 \<Longrightarrow> T \<noteq> [] \<Longrightarrow> splitText T L = None"
  using splitText_loop_nonpositive[of T L 0 "[]"]
  by (cases "splitText T L") (auto simp: splitText_def)

text \<open>
  C2, as the claim states it, fails: the segmenter has no check of \<open>maxLength\<close>. With
  \<open>maxLength = 0\<close> and the empty text it returns the empty sequence, and the callers
  hand a negative configured value on as it is.
\<close>

theorem splitText_nonpositive_counterexample:
  "splitText [] 0 = Some [] \<and> splitTextPlain [] 0 = Some []
   \<and> effective_maxLength (Num (- 1)) = - 1"
  by (simp add: splitText_def splitTextPlain_def splitText_loop.simps
      effective_maxLength_def Number_def number_or_def)

text \<open>
  C2, amended. The segmenter signals nothing: on the empty text it returns the empty
  sequence for every \<open>maxLength\<close>, positive or not. The callers put 5000 in the place
  of a configured value that \<open>Number\<close> turns into \<open>NaN\<close> or \<open>0\<close>, and pass a positive
  value on.
\<close>

theorem splitText_no_precondition:
  "splitText [] L = Some [] \<and> splitTextPlain [] L = Some []
   \<and> effective_maxLength NaN = 5000 \<and> effective_maxLength (Num 0) = 5000
   \<and> (0 < n \<longrightarrow> effective_maxLength (Num n) = n)"
  by (simp add: splitText_def splitTextPlain_def splitText_loop.simps
      effective_maxLength_def Number_def number_or_def)

theorem splitText_no_precondition_witness:
  "splitText [] (- 7) = Some [] \<and> splitTextPlain [] (- 7) = Some []
   \<and> effective_maxLength NaN = 5000 \<and> effective_maxLength (Num 0) = 5000
   \<and> (0::int) < 200 \<and> effective_maxLength (Num 200) = 200"
  using splitText_no_precondition[of "- 7" 200] by simp

section \<open>Properties of the response decoder\<close>

subsection \<open>The loops of the source compute the decoder of the specification\<close>

lemma takeWhile_short_iff:
  "length (takeWhile P xs) < length xs \<longleftrightarrow> (\<exists>x \<in> set xs. \<not> P x)"
  by (induction xs) auto

lemma data_prefix_length: "length data_prefix = 8"
  by (simp add: data_prefix_def js_def)

lemma data_prefix_hd: "data_prefix = quote # tl data_prefix"
  by (simp add: data_prefix_def js_def quote_def)

lemma data_occurrences_Nil: "data_occurrences [] = []"
  by (simp add: data_occurrences.simps)

lemma tl_drop_Suc: "tl (drop n xs) = drop (Suc n) xs"
  by (simp add: drop_Suc drop_tl)

lemma data_occurrences_skip1:
  assumes "\<not> (take 8 t = data_prefix \<and> quote \<in> set (drop 8 t))"
  shows "data_occurrences t = data_occurrences (tl t)"
  using assms by (subst data_occurrences.simps) (auto simp: data_occurrences_Nil)

lemma data_occurrences_drop_Suc:
  assumes "\<not> (take 8 (drop i t) = data_prefix \<and> quote \<in> set (drop 8 (drop i t)))"
  shows "data_occurrences (drop i t) = data_occurrences (drop (Suc i) t)"
proof -
  have "tl (drop i t) = drop (Suc i) t" by (simp add: drop_Suc drop_tl)
  with data_occurrences_skip1[OF assms] show ?thesis by simp
qed

lemma regex_match_at_Some:
  assumes "regex_match_at text i = Some (v, j)"
  shows "take 8 (drop i text) = data_prefix"
    and "quote \<in> set (drop 8 (drop i text))"
    and "v = takeWhile (\<lambda>c. c \<noteq> quote) (drop 8 (drop i text))"
    and "j = i + 8 + length v + 1"
    and "j \<le> length text"
proof -
  let ?rest = "drop (i + 8) text"
  let ?cap = "takeWhile (\<lambda>c. c \<noteq> quote) ?rest"
  from assms have p: "take 8 (drop i text) = data_prefix"
    and l: "length ?cap < length ?rest" and v: "v = ?cap" and j: "j = i + 8 + length ?cap + 1"
    by (auto simp: regex_match_at_def Let_def split: if_splits)
  have r: "drop 8 (drop i text) = ?rest" by (simp add: add.commute)
  show "take 8 (drop i text) = data_prefix" by (rule p)
  show "quote \<in> set (drop 8 (drop i text))"
    using l unfolding r takeWhile_short_iff by auto
  show "v = takeWhile (\<lambda>c. c \<noteq> quote) (drop 8 (drop i text))" using v r by simp
  show "j = i + 8 + length v + 1" using j v by simp
  show "j \<le> length text" using l j by simp
qed

lemma regex_match_at_None:
  assumes "regex_match_at text i = None"
  shows "\<not> (take 8 (drop i text) = data_prefix \<and> quote \<in> set (drop 8 (drop i text)))"
proof
  assume a: "take 8 (drop i text) = data_prefix \<and> quote \<in> set (drop 8 (drop i text))"
  have r: "drop (i + 8) text = drop 8 (drop i text)" by (simp add: add.commute)
  from a have "length (takeWhile (\<lambda>c. c \<noteq> quote) (drop (i + 8) text)) < length (drop (i + 8) text)"
    unfolding r takeWhile_short_iff by auto
  with a assms show False
    by (simp add: regex_match_at_def Let_def)
qed

lemma data_occurrences_match:
  assumes "regex_match_at text i = Some (v, j)"
  shows "data_occurrences (drop i text) = v # data_occurrences (drop j text)"
proof -
  note m = regex_match_at_Some[OF assms]
  let ?rest = "drop 8 (drop i text)"
  have ne: "drop i text \<noteq> []" using m(1) by (auto simp: data_prefix_def js_def)
  have dw: "dropWhile (\<lambda>c. c \<noteq> quote) ?rest = drop (length v) ?rest"
    unfolding m(3) by (rule dropWhile_eq_drop)
  have idx: "j = Suc (length v) + (8 + i)" using m(4) by simp
  have "tl (dropWhile (\<lambda>c. c \<noteq> quote) ?rest) = tl (drop (length v) ?rest)"
    by (simp only: dw)
  also have "\<dots> = drop (Suc (length v)) ?rest"
    by (rule tl_drop_Suc)
  also have "\<dots> = drop (Suc (length v) + (8 + i)) text"
    by (simp only: drop_drop)
  also have "\<dots> = drop j text"
    by (simp only: idx)
  finally have "tl (dropWhile (\<lambda>c. c \<noteq> quote) ?rest) = drop j text" .
  with ne m(1,2,3) show ?thesis
    by (subst data_occurrences.simps) simp
qed

lemma regex_exec_refines:
  "(case regex_exec t i of
      None \<Rightarrow> data_occurrences (drop i t) = []
    | Some (v, j) \<Rightarrow> data_occurrences (drop i t) = v # data_occurrences (drop j t)
                    \<and> i < j \<and> j \<le> length t)"
proof (induction t i rule: regex_exec.induct)
  case (1 t i)
  show ?case
  proof (cases "length t < i")
    case True
    then show ?thesis by (simp add: regex_exec.simps data_occurrences_Nil)
  next
    case False
    show ?thesis
    proof (cases "regex_match_at t i")
      case None
      from regex_match_at_None[OF None]
      have "data_occurrences (drop i t) = data_occurrences (drop (Suc i) t)"
        by (rule data_occurrences_drop_Suc)
      moreover have "regex_exec t i = regex_exec t (Suc i)"
        using False None by (subst regex_exec.simps) simp
      ultimately show ?thesis using 1[OF False None]
        by (auto split: option.splits)
    next
      case (Some m)
      obtain v j where m: "m = (v, j)" by (cases m)
      have e: "regex_exec t i = Some (v, j)"
        using False Some m by (subst regex_exec.simps) simp
      from regex_match_at_Some[OF Some[unfolded m]] data_occurrences_match[OF Some[unfolded m]]
      show ?thesis by (simp add: e)
    qed
  qed
qed

lemma decoded_chunks_Nil: "decoded_chunks atob [] = []"
  by (simp add: decoded_chunks_def map_filter_simps)

lemma decoded_chunks_Cons:
  "decoded_chunks atob (v # vs) =
     (if v \<noteq> [] \<and> v \<noteq> js ''null''
      then (case atob v of None \<Rightarrow> decoded_chunks atob vs
            | Some b \<Rightarrow> map of_nat b # decoded_chunks atob vs)
      else decoded_chunks atob vs)"
  by (simp add: decoded_chunks_def map_filter_simps split: option.splits)

lemma exec_loop_refines:
  "exec_loop atob body i chunks n =
     (chunks @ decoded_chunks atob (data_occurrences (drop i body)),
      n + length (concat (decoded_chunks atob (data_occurrences (drop i body)))))"
proof (induction atob body i chunks n rule: exec_loop.induct)
  case (1 atob body lastIndex audioChunks totalLength)
  show ?case
  proof (cases "regex_exec body lastIndex")
    case None
    with regex_exec_refines[where t = body and i = lastIndex]
    have "data_occurrences (drop lastIndex body) = []" by simp
    with None show ?thesis
      by (subst exec_loop.simps) (simp add: decoded_chunks_Nil)
  next
    case (Some m)
    obtain b64 j where m: "m = (b64, j)" by (cases m)
    from regex_exec_refines[where t = body and i = lastIndex] Some m
    have occ: "data_occurrences (drop lastIndex body) = b64 # data_occurrences (drop j body)"
      by simp
    have e: "regex_exec body lastIndex = Some (b64, j)" using Some m by simp
    show ?thesis
    proof (cases "b64 \<noteq> [] \<and> b64 \<noteq> js ''null''")
      case False
      with 1(3)[OF e refl False] e occ show ?thesis
        by (subst exec_loop.simps) (auto simp: decoded_chunks_Cons)
    next
      case True
      show ?thesis
      proof (cases "atob b64")
        case None
        with 1(1)[OF e refl True None] True e occ show ?thesis
          by (subst exec_loop.simps) (simp add: decoded_chunks_Cons)
      next
        case (Some binaryStr)
        with 1(2)[OF e refl True Some refl] True e occ show ?thesis
          by (subst exec_loop.simps) (simp add: decoded_chunks_Cons Let_def to_bytes_def)
      qed
    qed
  qed
qed

lemma merge_loop_fits:
  "offset + length (concat chunks) \<le> length merged \<Longrightarrow>
   merge_loop chunks merged offset =
     Inr (take offset merged @ concat chunks @ drop (offset + length (concat chunks)) merged)"
proof (induction chunks arbitrary: merged offset)
  case Nil
  then show ?case by simp
next
  case (Cons chunk chunks)
  let ?m = "take offset merged @ chunk @ drop (offset + length chunk) merged"
  have fit: "\<not> length merged < offset + length chunk" using Cons.prems by simp
  have len: "length ?m = length merged" using Cons.prems by simp
  have "offset + length chunk + length (concat chunks) \<le> length ?m"
    using Cons.prems len by simp
  from Cons.IH[OF this]
  have "merge_loop chunks ?m (offset + length chunk) =
          Inr (take (offset + length chunk) ?m @ concat chunks
               @ drop (offset + length chunk + length (concat chunks)) ?m)" .
  moreover have "take (offset + length chunk) ?m = take offset merged @ chunk"
    using Cons.prems by simp
  moreover have "drop (offset + length chunk + length (concat chunks)) ?m
                   = drop (offset + length (concat (chunk # chunks))) merged"
    using Cons.prems by (simp add: add.assoc add.commute add.left_commute)
  ultimately show ?case using fit
    by (simp add: typed_array_set_def)
qed

lemma merge_loop_all:
  "merge_loop chunks (replicate (length (concat chunks)) 0) 0 = Inr (concat chunks)"
  using merge_loop_fits[of 0 chunks "replicate (length (concat chunks)) 0"] by simp

lemma decodeResponse_refines:
  assumes "is_text_type r"
  shows "decodeResponse atob r = decode_text_spec atob (text_body r)"
  using assms
  by (simp add: decodeResponse_def decode_text_spec_def exec_loop_refines Let_def merge_loop_all)

subsection \<open>Bodies made of \<open>data\<close> objects\<close>

lemma data_occurrences_skip:
  "quote \<notin> set pre \<Longrightarrow> data_occurrences (pre @ rest) = data_occurrences rest"
proof (induction pre)
  case Nil
  show ?case by simp
next
  case (Cons x pre)
  have "take 8 ((x # pre) @ rest) \<noteq> data_prefix"
    using Cons.prems by (subst data_prefix_hd) auto
  then have "data_occurrences ((x # pre) @ rest) = data_occurrences (tl ((x # pre) @ rest))"
    by (intro data_occurrences_skip1) simp
  with Cons show ?case by simp
qed

lemma data_occurrences_hit:
  assumes "take 8 t = data_prefix" "drop 8 t = v @ quote # rest" "quote \<notin> set v"
  shows "data_occurrences t = v # data_occurrences rest"
proof -
  have ne: "t \<noteq> []" using assms(1) by (auto simp: data_prefix_def js_def)
  have tw: "takeWhile (\<lambda>c. c \<noteq> quote) (v @ quote # rest) = v"
    using assms(3) by (subst takeWhile_append2) auto
  have dw: "dropWhile (\<lambda>c. c \<noteq> quote) (v @ quote # rest) = quote # rest"
    using assms(3) by (subst dropWhile_append2) auto
  show ?thesis
    by (subst data_occurrences.simps) (simp add: ne assms(1,2) tw dw)
qed

lemma data_occurrences_field:
  assumes "quote \<notin> set v"
  shows "data_occurrences (data_prefix @ v @ quote # rest) = v # data_occurrences rest"
  by (rule data_occurrences_hit[OF _ _ assms]) (simp_all add: data_prefix_length)

lemma data_object_parts: "data_object v = [123] @ data_prefix @ v @ quote # [125]"
  by (simp add: data_object_def data_prefix_def js_def quote_def)

lemma data_occurrences_object:
  assumes "quote \<notin> set v"
  shows "data_occurrences (data_object v @ rest) = v # data_occurrences rest"
proof -
  have "data_occurrences (data_object v @ rest)
          = data_occurrences ([123] @ (data_prefix @ v @ quote # ([125] @ rest)))"
    by (simp add: data_object_parts)
  also have "\<dots> = data_occurrences (data_prefix @ v @ quote # ([125] @ rest))"
    by (rule data_occurrences_skip) (simp add: quote_def)
  also have "\<dots> = v # data_occurrences ([125] @ rest)"
    by (rule data_occurrences_field[OF assms])
  also have "data_occurrences ([125] @ rest) = data_occurrences rest"
    by (rule data_occurrences_skip) (simp add: quote_def)
  finally show ?thesis .
qed

lemma data_occurrences_objects:
  "\<forall>v \<in> set vs. quote \<notin> set v \<Longrightarrow> data_occurrences (concat (map data_object vs)) = vs"
  by (induction vs) (simp_all add: data_occurrences_Nil data_occurrences_object)

lemma decoded_chunks_filter:
  "decoded_chunks atob vs =
     map (\<lambda>v. to_bytes (the (atob v)))
       (filter (\<lambda>v. v \<noteq> [] \<and> v \<noteq> js ''null'' \<and> atob v \<noteq> None) vs)"
  by (induction vs) (auto simp: decoded_chunks_Nil decoded_chunks_Cons to_bytes_def)

lemma quote_free_null: "quote \<notin> set (js ''null'')"
  by (simp add: js_def quote_def)

text \<open>
  C3. For a response whose content type, lowered, contains \<open>application/json\<close> or
  \<open>text\<close>, the decoder of the source computes what the specification's decoder
  computes on the body text: it takes the values of all occurrences of
  \<open>"data":"<value>"\<close> in order of appearance, decodes those that are non-empty and not
  \<open>null\<close>, and returns the decoded chunks concatenated in match order. In particular a
  body of two objects \<open>{"data":"<b64>"}\<close> with nothing between them decodes to the
  bytes of the first followed by the bytes of the second: when \<open>atob\<close> gives the binary
  strings \<open>b1\<close> and \<open>b2\<close>, the buffer holds the code units of \<open>b1\<close>, then those of
  \<open>b2\<close>, each as one byte.
\<close>

theorem decodeResponse_text_scan:
  assumes "is_text_type r"
  shows "decodeResponse atob r = decode_text_spec atob (text_body r)
       \<and> (text_body r = data_object v1 @ data_object v2
            \<and> quote \<notin> set v1 \<and> quote \<notin> set v2
            \<and> v1 \<noteq> [] \<and> v1 \<noteq> js ''null'' \<and> v2 \<noteq> [] \<and> v2 \<noteq> js ''null''
            \<and> atob v1 = Some b1 \<and> atob v2 = Some b2
          \<longrightarrow> decodeResponse atob r = Inr (map of_nat b1 @ map of_nat b2))"
proof (intro conjI impI)
  show spec: "decodeResponse atob r = decode_text_spec atob (text_body r)"
    by (rule decodeResponse_refines[OF assms])
  assume a: "text_body r = data_object v1 @ data_object v2
            \<and> quote \<notin> set v1 \<and> quote \<notin> set v2
            \<and> v1 \<noteq> [] \<and> v1 \<noteq> js ''null'' \<and> v2 \<noteq> [] \<and> v2 \<noteq> js ''null''
            \<and> atob v1 = Some b1 \<and> atob v2 = Some b2"
  then have "data_occurrences (text_body r) = [v1, v2]"
    using data_occurrences_objects[of "[v1, v2]"] by simp
  with a show "decodeResponse atob r = Inr (map of_nat b1 @ map of_nat b2)"
    by (simp add: spec decode_text_spec_def decoded_chunks_Cons decoded_chunks_Nil)
qed

theorem decodeResponse_text_scan_witness:
  \<open>is_text_type (json_response (js ''{"data":"QUJD"}{"data":"REVG"}''))
   \<and> text_body (json_response (js ''{"data":"QUJD"}{"data":"REVG"}''))
       = data_object (js ''QUJD'') @ data_object (js ''REVG'')
   \<and> quote \<notin> set (js ''QUJD'') \<and> quote \<notin> set (js ''REVG'')
   \<and> js ''QUJD'' \<noteq> [] \<and> js ''QUJD'' \<noteq> js ''null''
   \<and> js ''REVG'' \<noteq> [] \<and> js ''REVG'' \<noteq> js ''null''
   \<and> atob_forgiving (js ''QUJD'') = Some [65, 66, 67]
   \<and> atob_forgiving (js ''REVG'') = Some [68, 69, 70]
   \<and> decodeResponse atob_forgiving (json_response (js ''{"data":"QUJD"}{"data":"REVG"}''))
       = Inr [65, 66, 67, 68, 69, 70]
   \<and> decode_text_spec atob_forgiving (js ''{"data":"QUJD"}{"data":"REVG"}'')
       = Inr [65, 66, 67, 68, 69, 70]\<close>
proof -
  let ?r = \<open>json_response (js ''{"data":"QUJD"}{"data":"REVG"}'')\<close>
  have h: "is_text_type ?r" by code_simp
  have b: "text_body ?r = data_object (js ''QUJD'') @ data_object (js ''REVG'')"
    by (simp add: json_response_def data_object_def js_def)
  have q: "quote \<notin> set (js ''QUJD'')" "quote \<notin> set (js ''REVG'')"
    "js ''QUJD'' \<noteq> []" "js ''QUJD'' \<noteq> js ''null''"
    "js ''REVG'' \<noteq> []" "js ''REVG'' \<noteq> js ''null''"
    by (simp_all add: js_def quote_def)
  have a: "atob_forgiving (js ''QUJD'') = Some [65, 66, 67]"
    "atob_forgiving (js ''REVG'') = Some [68, 69, 70]"
    by (simp_all add: atob_forgiving_def strip_padding_def is_ascii_whitespace_def
        base64_value_def js_def Let_def)
  have c: "map of_nat [65, 66, 67 :: nat] @ map of_nat [68, 69, 70 :: nat]
             = [65, 66, 67, 68, 69, 70 :: byte]"
    by simp
  have t: \<open>text_body ?r = js ''{"data":"QUJD"}{"data":"REVG"}''\<close>
    by (simp add: json_response_def)
  note th = decodeResponse_text_scan[OF h, of atob_forgiving "js ''QUJD''" "js ''REVG''"
      "[65, 66, 67]" "[68, 69, 70]"]
  have "decodeResponse atob_forgiving ?r
          = Inr (map of_nat [65, 66, 67 :: nat] @ map of_nat [68, 69, 70 :: nat])"
    by (rule th[THEN conjunct2, THEN mp]) (intro conjI; (rule b q a))
  then have d1: "decodeResponse atob_forgiving ?r = Inr [65, 66, 67, 68, 69, 70]"
    by (simp only: c)
  have d2: \<open>decode_text_spec atob_forgiving (js ''{"data":"QUJD"}{"data":"REVG"}'')
       = Inr [65, 66, 67, 68, 69, 70]\<close>
    using th[THEN conjunct1] by (simp only: d1 t)
  show ?thesis
    by (intro conjI; (rule h b q a d1 d2))
qed

text \<open>
  C4. For a response of a text or JSON content type: a value that is empty, is
  \<open>null\<close> or does not decode is skipped, and the result is made of the other values
  alone; the decoder fails exactly when no value is left, and then with
  \<open>DecodeError\<close>, its only error; in particular it fails so on a body made only of
  objects \<open>{"data":"null"}\<close> and \<open>{"data":""}\<close>.
\<close>

theorem decodeResponse_text_lenient:
  assumes "is_text_type r"
  shows "(decodeResponse atob r = Inl DecodeError
            \<longleftrightarrow> (\<forall>v \<in> set (data_occurrences (text_body r)).
                   v = [] \<or> v = js ''null'' \<or> atob v = None))
       \<and> (\<forall>e. decodeResponse atob r = Inl e \<longrightarrow> e = DecodeError)
       \<and> decodeResponse atob r =
           (let good = filter (\<lambda>v. v \<noteq> [] \<and> v \<noteq> js ''null'' \<and> atob v \<noteq> None)
                         (data_occurrences (text_body r))
            in if good = [] then Inl DecodeError
               else Inr (concat (map (\<lambda>v. to_bytes (the (atob v))) good)))
       \<and> ((\<forall>v \<in> set vs. v = [] \<or> v = js ''null'') \<and> text_body r = concat (map data_object vs)
            \<longrightarrow> decodeResponse atob r = Inl DecodeError)"
proof -
  let ?good = "filter (\<lambda>v. v \<noteq> [] \<and> v \<noteq> js ''null'' \<and> atob v \<noteq> None)
                 (data_occurrences (text_body r))"
  have d: "decodeResponse atob r =
             (if ?good = [] then Inl DecodeError
              else Inr (concat (map (\<lambda>v. to_bytes (the (atob v))) ?good)))"
    by (simp add: decodeResponse_refines[OF assms] decode_text_spec_def decoded_chunks_filter Let_def)
  have iff: "decodeResponse atob r = Inl DecodeError
            \<longleftrightarrow> (\<forall>v \<in> set (data_occurrences (text_body r)).
                   v = [] \<or> v = js ''null'' \<or> atob v = None)"
    unfolding d by (auto simp: filter_empty_conv)
  have only: "\<forall>e. decodeResponse atob r = Inl e \<longrightarrow> e = DecodeError"
    unfolding d by simp
  have part: "(\<forall>v \<in> set vs. v = [] \<or> v = js ''null'') \<and> text_body r = concat (map data_object vs)
            \<longrightarrow> decodeResponse atob r = Inl DecodeError"
  proof
    assume a: "(\<forall>v \<in> set vs. v = [] \<or> v = js ''null'') \<and> text_body r = concat (map data_object vs)"
    then have "\<forall>v \<in> set vs. quote \<notin> set v" using quote_free_null by auto
    then have "data_occurrences (text_body r) = vs"
      using a data_occurrences_objects by simp
    with a show "decodeResponse atob r = Inl DecodeError"
      unfolding iff by auto
  qed
  from iff only d part show ?thesis by (simp add: Let_def)
qed

theorem decodeResponse_text_lenient_witness:
  \<open>is_text_type (json_response (js ''{"data":"null"}{"data":""}''))
   \<and> list_all (\<lambda>v. v = [] \<or> v = js ''null'') [js ''null'', []]
   \<and> text_body (json_response (js ''{"data":"null"}{"data":""}''))
       = concat (map data_object [js ''null'', []])
   \<and> decodeResponse atob_forgiving (json_response (js ''{"data":"null"}{"data":""}''))
       = Inl DecodeError\<close>
proof -
  let ?r = \<open>json_response (js ''{"data":"null"}{"data":""}'')\<close>
  have h: "is_text_type ?r" by code_simp
  have v: "\<forall>v \<in> set [js ''null'', []]. v = [] \<or> v = js ''null''" by simp
  have b: "text_body ?r = concat (map data_object [js ''null'', []])"
    by (simp add: json_response_def data_object_def js_def)
  note th = decodeResponse_text_lenient[OF h, of atob_forgiving "[js ''null'', []]"]
  have d: "decodeResponse atob_forgiving ?r = Inl DecodeError"
    by (rule th[THEN conjunct2, THEN conjunct2, THEN conjunct2, THEN mp, OF conjI[OF v b]])
  have v': "list_all (\<lambda>v. v = [] \<or> v = js ''null'') [js ''null'', []]" by simp
  show ?thesis
    by (intro conjI; (rule h v' b d))
qed

lemma synthesizeSegment_ok:
  assumes "fetch log (build_request segment s) = Responded r" "ok r"
  shows "synthesizeSegment fetch atob segment s log
           = (decodeResponse atob r, log @ [build_request segment s])"
  using assms by (simp add: synthesizeSegment_def Let_def)

text \<open>
  C5. For a response whose content type, lowered, contains neither
  \<open>application/json\<close> nor \<open>text\<close>, the decoder returns the bytes of the body
  unchanged, and so does a synthesis call that receives such a response with a success
  status.
\<close>

theorem decodeResponse_binary:
  assumes "\<not> is_text_type r"
  shows "decodeResponse atob r = Inr (arrayBuffer_body r)
       \<and> (fetch log (build_request segment s) = Responded r \<and> ok r \<longrightarrow>
            synthesizeSegment fetch atob segment s log
              = (Inr (arrayBuffer_body r), log @ [build_request segment s])
          \<and> synthesizeSegmentLocal fetch atob segment s log
              = (Inr (arrayBuffer_body r), log @ [build_request segment s]))"
  using assms
  by (simp add: decodeResponse_def synthesizeSegment_def synthesizeSegmentLocal_def Let_def)

theorem decodeResponse_binary_witness:
  "\<not> is_text_type (audio_response [73, 68, 51])
   \<and> decodeResponse atob_forgiving (audio_response [73, 68, 51]) = Inr [73, 68, 51]"
proof -
  have h: "\<not> is_text_type (audio_response [73, 68, 51])" by code_simp
  have "decodeResponse atob_forgiving (audio_response [73, 68, 51])
          = Inr (arrayBuffer_body (audio_response [73, 68, 51]))"
    by (rule decodeResponse_binary[OF h, THEN conjunct1])
  then have d: "decodeResponse atob_forgiving (audio_response [73, 68, 51]) = Inr [73, 68, 51]"
    by (simp add: audio_response_def)
  show ?thesis
    by (intro conjI; (rule h d))
qed

section \<open>Properties of the synthesis client and the orchestrator\<close>

lemma synthesizeSegment_log:
  "snd (synthesizeSegment fetch atob segment s log) = log @ [build_request segment s]"
  by (simp add: synthesizeSegment_def Let_def)

lemma decodeResponse_error:
  assumes "decodeResponse atob r = Inl e"
  shows "e = DecodeError"
proof (cases "is_text_type r")
  case True
  with assms decodeResponse_refines[OF True, of atob] show ?thesis
    by (auto simp: decode_text_spec_def Let_def split: if_splits)
next
  case False
  with assms show ?thesis by (simp add: decodeResponse_def)
qed

lemma synthesizeSegment_error:
  assumes "fst (synthesizeSegment fetch atob segment s log) = Inl e"
  shows "e = NetworkError \<or> e = DecodeError \<or> (\<exists>c t. e = RemoteError c t)"
  using assms decodeResponse_error
  by (auto simp: synthesizeSegment_def Let_def split: fetch_outcome.splits if_splits)

text \<open>The loop, call by call.\<close>

lemma synthesize_loop_abort:
  assumes "k < length segs"
    and "\<forall>i<k. \<exists>b. fst (synth (segs ! i) (log @ map mk (take i segs))) = Inr b"
    and "fst (synth (segs ! k) (log @ map mk (take k segs))) = Inl e"
    and "\<And>g l. snd (synth g l) = l @ [mk g]"
  shows "synthesize_loop synth segs bufs log = (Inl e, log @ map mk (take (Suc k) segs))"
  using assms(1,2,3)
proof (induction segs arbitrary: k bufs log)
  case Nil
  then show ?case by simp
next
  case (Cons g segs)
  show ?case
  proof (cases k)
    case 0
    with Cons.prems(3) have "fst (synth g log) = Inl e" by simp
    moreover have "snd (synth g log) = log @ [mk g]" by (rule assms(4))
    ultimately have "synth g log = (Inl e, log @ [mk g])" by (cases "synth g log") simp
    with 0 show ?thesis by simp
  next
    case (Suc k')
    from Cons.prems(2)[rule_format, of 0] Suc obtain b where "fst (synth g log) = Inr b"
      by auto
    moreover have "snd (synth g log) = log @ [mk g]" by (rule assms(4))
    ultimately have first: "synth g log = (Inr b, log @ [mk g])" by (cases "synth g log") simp
    have k': "k' < length segs" using Cons.prems(1) Suc by simp
    have ok': "\<forall>i<k'. \<exists>b. fst (synth (segs ! i) ((log @ [mk g]) @ map mk (take i segs))) = Inr b"
    proof (intro allI impI)
      fix i assume "i < k'"
      then have "Suc i < k" using Suc by simp
      from Cons.prems(2)[rule_format, OF this] show
        "\<exists>b. fst (synth (segs ! i) ((log @ [mk g]) @ map mk (take i segs))) = Inr b"
        by simp
    qed
    have fail': "fst (synth (segs ! k') ((log @ [mk g]) @ map mk (take k' segs))) = Inl e"
      using Cons.prems(3) Suc by simp
    from Cons.IH[OF k' ok' fail', of "bufs @ [b]"] first Suc show ?thesis by simp
  qed
qed

lemma synthesize_loop_requests:
  assumes "\<And>g l. snd (synth g l) = l @ [mk g]"
  shows "\<exists>n \<le> length segs. snd (synthesize_loop synth segs bufs log) = log @ map mk (take n segs)"
proof (induction segs arbitrary: bufs log)
  case Nil
  then show ?case by simp
next
  case (Cons g segs)
  have l: "snd (synth g log) = log @ [mk g]" by (rule assms)
  show ?case
  proof (cases "fst (synth g log)")
    case (Inl e)
    with l have "synth g log = (Inl e, log @ [mk g])" by (cases "synth g log") simp
    then have "snd (synthesize_loop synth (g # segs) bufs log) = log @ map mk (take 1 (g # segs))"
      by simp
    then show ?thesis by (intro exI[of _ 1]) simp
  next
    case (Inr b)
    with l have first: "synth g log = (Inr b, log @ [mk g])" by (cases "synth g log") simp
    from Cons.IH[of "bufs @ [b]" "log @ [mk g]"] obtain n where
      n: "n \<le> length segs"
      "snd (synthesize_loop synth segs (bufs @ [b]) (log @ [mk g])) = (log @ [mk g]) @ map mk (take n segs)"
      by auto
    with first have "snd (synthesize_loop synth (g # segs) bufs log) = log @ map mk (take (Suc n) (g # segs))"
      by simp
    with n(1) show ?thesis by (intro exI[of _ "Suc n"]) simp
  qed
qed

lemma synthesize_loop_error:
  assumes "fst (synthesize_loop synth segs bufs log) = Inl e"
  shows "\<exists>g l. fst (synth g l) = Inl e"
  using assms
proof (induction segs arbitrary: bufs log)
  case Nil
  then show ?case by simp
next
  case (Cons g segs)
  show ?case
  proof (cases "synth g log")
    case (Pair res l)
    show ?thesis
    proof (cases res)
      case (Inl e')
      with Pair Cons.prems have "e' = e" by simp
      with Pair Inl have "fst (synth g log) = Inl e" by simp
      then show ?thesis by blast
    next
      case (Inr b)
      with Pair Cons.prems have "fst (synthesize_loop synth segs (bufs @ [b]) l) = Inl e" by simp
      from Cons.IH[OF this] show ?thesis .
    qed
  qed
qed

lemma synthesizeSegmentLocal_eq:
  "(\<lambda>g. synthesizeSegmentLocal fetch atob g s) = (\<lambda>g. synthesizeSegment fetch atob g s)"
  by (intro ext) (simp add: synthesizeSegmentLocal_def)

lemma splitText_first:
  assumes "0 < L" "T \<noteq> []"
  shows "\<exists>rest. splitText T L = Some (take (nat L) T # rest)"
proof -
  have lt: "0 < int (length T)" using assms(2) by simp
  have s: "slice_str T 0 (0 + L) = take (nat L) T"
    using slice_str_forward[of 0 L T] assms(1) lt by simp
  from splitText_loop_positive[OF assms(1), of "0 + L" T "[slice_str T 0 (0 + L)]"] assms(1)
  obtain rest where "splitText_loop T L (0 + L) ([] @ [slice_str T 0 (0 + L)])
                       = Some ([slice_str T 0 (0 + L)] @ rest)"
    by auto
  then have "splitText_loop T L 0 [] = Some (slice_str T 0 (0 + L) # rest)"
    using lt by (subst splitText_loop.simps) simp
  then show ?thesis using s by (simp add: splitText_def)
qed

lemma synthesize_loop_first:
  assumes "\<And>g l. snd (synth g l) = l @ [mk g]"
  shows "\<exists>reqs. snd (synthesize_loop synth (g # segs) bufs log) = log @ mk g # reqs"
proof -
  from synthesize_loop_requests[of synth mk, OF assms, of segs] have
    tail: "\<And>bufs l. \<exists>n. snd (synthesize_loop synth segs bufs l) = l @ map mk (take n segs)"
    by blast
  have l: "snd (synth g log) = log @ [mk g]" by (rule assms)
  show ?thesis
  proof (cases "fst (synth g log)")
    case (Inl e)
    with l have "synth g log = (Inl e, log @ [mk g])" by (cases "synth g log") simp
    then show ?thesis by simp
  next
    case (Inr b)
    with l have first: "synth g log = (Inr b, log @ [mk g])" by (cases "synth g log") simp
    from tail[of "bufs @ [b]" "log @ [mk g]"] obtain n where
      "snd (synthesize_loop synth segs (bufs @ [b]) (log @ [mk g])) = (log @ [mk g]) @ map mk (take n segs)"
      by blast
    with first show ?thesis by simp
  qed
qed

text \<open>
  C6. When \<open>apiKey\<close>, \<open>resourceId\<close> or \<open>speaker\<close> of the settings is empty,
  \<open>synthesizeAll\<close> fails with \<open>PreconditionError\<close> and the transport's log is what it
  was before the call, whatever the transport: no request was made. The listener of
  background.js answers with the same error, and makes no request either.
\<close>

theorem synthesizeAll_precondition:
  assumes "apiKey s = [] \<or> resourceId s = [] \<or> speaker s = []"
  shows "synthesizeAll fetch atob s text log = Some (Inl PreconditionError, log)
       \<and> onMessage fetch atob s \<lparr> msg_type = js ''synthesize'', msg_text = t \<rparr> log
           = Some (ErrorReply PreconditionError, log)"
  using assms by (simp add: synthesizeAll_def onMessage_def)

theorem synthesizeAll_precondition_witness:
  "(apiKey (demo_settings\<lparr> speaker := [] \<rparr>) = []
      \<or> resourceId (demo_settings\<lparr> speaker := [] \<rparr>) = []
      \<or> speaker (demo_settings\<lparr> speaker := [] \<rparr>) = [])
   \<and> synthesizeAll always_audio atob_forgiving (demo_settings\<lparr> speaker := [] \<rparr>) (js ''abcdefg'') []
       = Some (Inl PreconditionError, [])"
proof -
  have h: "apiKey (demo_settings\<lparr> speaker := [] \<rparr>) = []
      \<or> resourceId (demo_settings\<lparr> speaker := [] \<rparr>) = []
      \<or> speaker (demo_settings\<lparr> speaker := [] \<rparr>) = []"
    by simp
  from synthesizeAll_precondition[OF h, THEN conjunct1] h show ?thesis
    by (intro conjI)
qed

text \<open>
  C7. The segments are synthesized one after the other, in order, and the first failure
  ends the run: when the calls for the segments before index \<open>k\<close> succeed and the call
  for segment \<open>k\<close> fails with \<open>e\<close>, \<open>synthesizeAll\<close> fails with \<open>e\<close>, returns no
  buffers, and has made \<open>k + 1\<close> requests, those of the segments \<open>0\<close> to \<open>k\<close> in
  order. With three segments and \<open>k = 1\<close>: two calls, and no request for the third
  segment.
\<close>

theorem synthesizeAll_first_failure:
  assumes creds: "apiKey s \<noteq> []" "resourceId s \<noteq> []" "speaker s \<noteq> []"
    and split: "splitTextPlain text (effective_maxLength (maxLength s)) = Some segs"
    and k: "k < length segs"
    and before: "\<forall>i<k. \<exists>b. fst (synthesizeSegmentLocal fetch atob (segs ! i) s
                   (log @ map (\<lambda>g. build_request g s) (take i segs))) = Inr b"
    and failure: "fst (synthesizeSegmentLocal fetch atob (segs ! k) s
                   (log @ map (\<lambda>g. build_request g s) (take k segs))) = Inl e"
  shows "synthesizeAll fetch atob s text log
           = Some (Inl e, log @ map (\<lambda>g. build_request g s) (take (Suc k) segs))
       \<and> onMessage fetch atob s \<lparr> msg_type = js ''synthesize'', msg_text = Some text \<rparr> log
           = Some (ErrorReply e, log @ map (\<lambda>g. build_request g s) (take (Suc k) segs))
       \<and> length (log @ map (\<lambda>g. build_request g s) (take (Suc k) segs)) = length log + Suc k"
proof -
  let ?mk = "\<lambda>g. build_request g s"
  have loc: "synthesize_loop (\<lambda>g. synthesizeSegmentLocal fetch atob g s) segs [] log
               = (Inl e, log @ map ?mk (take (Suc k) segs))"
    by (rule synthesize_loop_abort[OF k before failure])
       (simp add: synthesizeSegmentLocal_def synthesizeSegment_log)
  have bg: "synthesize_loop (\<lambda>g. synthesizeSegment fetch atob g s) segs [] log
               = (Inl e, log @ map ?mk (take (Suc k) segs))"
    using loc synthesizeSegmentLocal_eq[of fetch atob] by simp
  have split': "splitText text (effective_maxLength (maxLength s)) = Some segs"
    using split by (simp add: splitTextPlain_def)
  have len: "length (log @ map ?mk (take (Suc k) segs)) = length log + Suc k"
    using k by simp
  from creds split loc have a: "synthesizeAll fetch atob s text log
           = Some (Inl e, log @ map ?mk (take (Suc k) segs))"
    by (simp add: synthesizeAll_def)
  from creds split' bg have b: "onMessage fetch atob s \<lparr> msg_type = js ''synthesize'', msg_text = Some text \<rparr> log
           = Some (ErrorReply e, log @ map ?mk (take (Suc k) segs))"
    by (simp add: onMessage_def)
  from a b len show ?thesis by (intro conjI)
qed

lemma audio_response_binary: "\<not> is_text_type (audio_response bytes)"
proof -
  have "lowerType (audio_response bytes) = ''audio/mpeg''"
    by code_simp
  then show ?thesis by (simp add: is_text_type_def)
qed

theorem synthesizeAll_first_failure_witness:
  "apiKey demo_settings \<noteq> [] \<and> resourceId demo_settings \<noteq> [] \<and> speaker demo_settings \<noteq> []
   \<and> splitTextPlain (js ''abcdefg'') (effective_maxLength (maxLength demo_settings))
       = Some [js ''abc'', js ''def'', js ''g'']
   \<and> (1::nat) < length [js ''abc'', js ''def'', js ''g'']
   \<and> fst (synthesizeSegmentLocal second_call_fails atob_forgiving (js ''abc'') demo_settings [])
       = Inr [73, 68, 51]
   \<and> fst (synthesizeSegmentLocal second_call_fails atob_forgiving (js ''def'') demo_settings
            [build_request (js ''abc'') demo_settings])
       = Inl (RemoteError 500 (js ''Internal Server Error''))
   \<and> synthesizeAll second_call_fails atob_forgiving demo_settings (js ''abcdefg'') []
       = Some (Inl (RemoteError 500 (js ''Internal Server Error'')),
               [build_request (js ''abc'') demo_settings, build_request (js ''def'') demo_settings])"
proof -
  let ?segs = "[js ''abc'', js ''def'', js ''g'']"
  let ?mk = "\<lambda>g. build_request g demo_settings"
  let ?e = "RemoteError 500 (js ''Internal Server Error'')"
  have creds: "apiKey demo_settings \<noteq> []" "resourceId demo_settings \<noteq> []"
    "speaker demo_settings \<noteq> []"
    by (simp_all add: demo_settings_def js_def)
  have split: "splitTextPlain (js ''abcdefg'') (effective_maxLength (maxLength demo_settings))
                 = Some ?segs"
    by code_simp
  have k: "(1::nat) < length ?segs" by simp
  have first: "fst (synthesizeSegmentLocal second_call_fails atob_forgiving (js ''abc'')
                      demo_settings []) = Inr [73, 68, 51]"
    by (simp add: synthesizeSegmentLocal_def synthesizeSegment_def second_call_fails_def
        decodeResponse_def audio_response_binary Let_def)
       (simp add: audio_response_def)
  have second: "fst (synthesizeSegmentLocal second_call_fails atob_forgiving (js ''def'')
                       demo_settings [build_request (js ''abc'') demo_settings]) = Inl ?e"
    by (simp add: synthesizeSegmentLocal_def synthesizeSegment_def second_call_fails_def
        error_response_def Let_def)
  have before: "\<forall>i<1. \<exists>b. fst (synthesizeSegmentLocal second_call_fails atob_forgiving
                   (?segs ! i) demo_settings ([] @ map ?mk (take i ?segs))) = Inr b"
    using first by simp
  have failure: "fst (synthesizeSegmentLocal second_call_fails atob_forgiving
                   (?segs ! 1) demo_settings ([] @ map ?mk (take 1 ?segs))) = Inl ?e"
    using second by simp
  have "synthesizeAll second_call_fails atob_forgiving demo_settings (js ''abcdefg'') []
          = Some (Inl ?e, [] @ map ?mk (take (Suc 1) ?segs))"
    by (rule synthesizeAll_first_failure[OF creds split k before failure, THEN conjunct1])
  then have run: "synthesizeAll second_call_fails atob_forgiving demo_settings (js ''abcdefg'') []
          = Some (Inl ?e, [build_request (js ''abc'') demo_settings,
                            build_request (js ''def'') demo_settings])"
    by simp
  show ?thesis
    by (intro conjI; (rule creds split k first second run))
qed

text \<open>
  C10. With \<open>apiKey\<close>, \<open>resourceId\<close> and \<open>speaker\<close> non-empty, neither
  \<open>synthesizeAll\<close> nor a synthesis call fails with \<open>PreconditionError\<close>, whatever
  \<open>format\<close> and \<open>sampleRate\<close> are; every request of the run is the request built
  from a segment and the settings, and the run does make the request of the first
  segment when the text is not empty; that request carries \<open>format\<close> as configured,
  \<open>Number(sampleRate)\<close> as its \<open>sample_rate\<close> (\<open>NaN\<close> included), and \<open>additions\<close>
  exactly when the configured string is not empty.
\<close>

theorem synthesize_no_other_validation:
  assumes creds: "apiKey s \<noteq> []" "resourceId s \<noteq> []" "speaker s \<noteq> []"
  shows "(\<forall>out log'. synthesizeAll fetch atob s text log = Some (out, log') \<longrightarrow>
            out \<noteq> Inl PreconditionError
            \<and> (\<forall>req \<in> set (drop (length log) log'). \<exists>g. req = build_request g s))
       \<and> (text \<noteq> [] \<and> 0 < effective_maxLength (maxLength s) \<longrightarrow>
            (\<exists>out reqs. synthesizeAll fetch atob s text log
               = Some (out, log @ build_request
                         (take (nat (effective_maxLength (maxLength s))) text) s # reqs)))
       \<and> fst (synthesizeSegment fetch atob g s log) \<noteq> Inl PreconditionError
       \<and> fst (synthesizeSegmentLocal fetch atob g s log) \<noteq> Inl PreconditionError
       \<and> req_format (build_request g s) = format s
       \<and> req_sample_rate (build_request g s) = Number (sampleRate s)
       \<and> req_additions (build_request g s)
           = (if additions s = [] then None else Some (additions s))"
proof -
  let ?mk = "\<lambda>g. build_request g s"
  let ?synth = "\<lambda>g. synthesizeSegmentLocal fetch atob g s"
  let ?L = "effective_maxLength (maxLength s)"
  have lg: "\<And>g l. snd (?synth g l) = l @ [?mk g]"
    by (simp add: synthesizeSegmentLocal_def synthesizeSegment_log)
  have nopre: "fst (synthesizeSegment fetch atob g s l) \<noteq> Inl PreconditionError" for g l
    using synthesizeSegment_error[of fetch atob g s l PreconditionError] by auto
  have a: "\<forall>out log'. synthesizeAll fetch atob s text log = Some (out, log') \<longrightarrow>
            out \<noteq> Inl PreconditionError
            \<and> (\<forall>req \<in> set (drop (length log) log'). \<exists>g. req = build_request g s)"
  proof (intro allI impI)
    fix out log'
    assume r: "synthesizeAll fetch atob s text log = Some (out, log')"
    then obtain segs where segs: "splitTextPlain text ?L = Some segs"
      using creds by (auto simp: synthesizeAll_def split: option.splits)
    obtain res l where loop: "synthesize_loop ?synth segs [] log = (res, l)"
      by (cases "synthesize_loop ?synth segs [] log")
    from r creds segs loop have l: "log' = l" and out: "out = map_sum id (\<lambda>bs. (bs, format s)) res"
      by (auto simp: synthesizeAll_def split: sum.splits)
    from synthesize_loop_requests[of ?synth ?mk segs "[]" log, OF lg] loop
    obtain n where "l = log @ map ?mk (take n segs)" by auto
    then have reqs: "\<forall>req \<in> set (drop (length log) log'). \<exists>g. req = build_request g s"
      using l by auto
    have "out \<noteq> Inl PreconditionError"
    proof
      assume "out = Inl PreconditionError"
      with out have "res = Inl PreconditionError" by (cases res) auto
      with loop have "fst (synthesize_loop ?synth segs [] log) = Inl PreconditionError" by simp
      from synthesize_loop_error[OF this] obtain g l where
        "fst (synthesizeSegmentLocal fetch atob g s l) = Inl PreconditionError" by blast
      with nopre[of g l] show False by (simp add: synthesizeSegmentLocal_def)
    qed
    with reqs show "out \<noteq> Inl PreconditionError
            \<and> (\<forall>req \<in> set (drop (length log) log'). \<exists>g. req = build_request g s)"
      by simp
  qed
  have b: "text \<noteq> [] \<and> 0 < ?L \<longrightarrow>
            (\<exists>out reqs. synthesizeAll fetch atob s text log
               = Some (out, log @ build_request (take (nat ?L) text) s # reqs))"
  proof
    assume h: "text \<noteq> [] \<and> 0 < ?L"
    then obtain rest where segs: "splitTextPlain text ?L = Some (take (nat ?L) text # rest)"
      using splitText_first[of ?L "text"] by (auto simp: splitTextPlain_def)
    from synthesize_loop_first[of ?synth ?mk "take (nat ?L) text" rest "[]" log, OF lg]
    obtain reqs where
      "snd (synthesize_loop ?synth (take (nat ?L) text # rest) [] log)
         = log @ ?mk (take (nat ?L) text) # reqs"
      by blast
    then obtain res where "synthesize_loop ?synth (take (nat ?L) text # rest) [] log
         = (res, log @ ?mk (take (nat ?L) text) # reqs)"
      by (cases "synthesize_loop ?synth (take (nat ?L) text # rest) [] log") simp
    with creds segs show "\<exists>out reqs. synthesizeAll fetch atob s text log
               = Some (out, log @ build_request (take (nat ?L) text) s # reqs)"
      by (cases res) (simp_all add: synthesizeAll_def)
  qed
  have c: "fst (synthesizeSegmentLocal fetch atob g s log) \<noteq> Inl PreconditionError"
    using nopre[of g log] by (simp add: synthesizeSegmentLocal_def)
  have d: "req_format (build_request g s) = format s"
    "req_sample_rate (build_request g s) = Number (sampleRate s)"
    "req_additions (build_request g s) = (if additions s = [] then None else Some (additions s))"
    by (simp_all add: build_request_def)
  from a b nopre[of g log] c d show ?thesis by (intro conjI)
qed

theorem synthesize_no_other_validation_witness:
  "apiKey odd_settings \<noteq> [] \<and> resourceId odd_settings \<noteq> [] \<and> speaker odd_settings \<noteq> []
   \<and> js ''abcd'' \<noteq> [] \<and> 0 < effective_maxLength (maxLength odd_settings)
   \<and> format odd_settings = js ''wav'' \<and> sampleRate odd_settings = NaN
   \<and> req_sample_rate (build_request (js ''abc'') odd_settings) = NaN
   \<and> req_additions (build_request (js ''abc'') odd_settings) = Some (js ''{}'')
   \<and> (\<exists>out reqs. synthesizeAll always_audio atob_forgiving odd_settings (js ''abcd'') []
         = Some (out, [] @ build_request (js ''abc'') odd_settings # reqs))
   \<and> synthesizeAll always_audio atob_forgiving odd_settings (js ''abcd'') []
       = Some (Inr ([[73, 68, 51], [73, 68, 51]], js ''wav''),
               [build_request (js ''abc'') odd_settings, build_request (js ''d'') odd_settings])"
proof -
  have creds: "apiKey odd_settings \<noteq> []" "resourceId odd_settings \<noteq> []"
    "speaker odd_settings \<noteq> []"
    by (simp_all add: odd_settings_def js_def)
  have h: "js ''abcd'' \<noteq> []" "0 < effective_maxLength (maxLength odd_settings)"
    by (simp_all add: js_def odd_settings_def effective_maxLength_def Number_def number_or_def)
  have f: "format odd_settings = js ''wav''" "sampleRate odd_settings = NaN"
    by (simp_all add: odd_settings_def)
  note th = synthesize_no_other_validation[OF creds, of always_audio atob_forgiving "js ''abcd''"
      "[]" "js ''abc''"]
  have tk: "take (nat (effective_maxLength (maxLength odd_settings))) (js ''abcd'') = js ''abc''"
    by (simp add: js_def odd_settings_def effective_maxLength_def Number_def number_or_def)
  have rate: "req_sample_rate (build_request (js ''abc'') odd_settings) = NaN"
    using th by (simp add: f Number_def)
  have add: "req_additions (build_request (js ''abc'') odd_settings) = Some (js ''{}'')"
    using th by (simp add: odd_settings_def js_def)
  have issued: "\<exists>out reqs. synthesizeAll always_audio atob_forgiving odd_settings (js ''abcd'') []
         = Some (out, [] @ build_request (js ''abc'') odd_settings # reqs)"
    using th[THEN conjunct2, THEN conjunct1, THEN mp, OF conjI[OF h]] by (simp only: tk)
  have split: "splitTextPlain (js ''abcd'') (effective_maxLength (maxLength odd_settings))
                 = Some [js ''abc'', js ''d'']"
    by code_simp
  have one: "synthesizeSegmentLocal always_audio atob_forgiving g odd_settings l
               = (Inr [73, 68, 51], l @ [build_request g odd_settings])" for g l
    by (simp add: synthesizeSegmentLocal_def synthesizeSegment_def always_audio_def
        decodeResponse_def audio_response_binary Let_def)
       (simp add: audio_response_def)
  have run: "synthesizeAll always_audio atob_forgiving odd_settings (js ''abcd'') []
       = Some (Inr ([[73, 68, 51], [73, 68, 51]], js ''wav''),
               [build_request (js ''abc'') odd_settings, build_request (js ''d'') odd_settings])"
    using creds by (simp add: synthesizeAll_def split one f)
  show ?thesis
    by (intro conjI; (rule creds h f rate add issued run))
qed

section \<open>Properties of the playback controller\<close>

lemma create_urls_eq:
  "create_urls mime buffers st =
     (queue_urls st (length buffers),
      st\<lparr> next_url := next_url st + length buffers,
          created := created st @ zip (queue_urls st (length buffers))
                                      (map (\<lambda>b. (b, mime)) buffers) \<rparr>)"
proof (induction buffers arbitrary: st)
  case Nil
  show ?case by (simp add: queue_urls_def)
next
  case (Cons b buffers)
  have u: "queue_urls st (Suc (length buffers))
             = next_url st # queue_urls (st\<lparr> next_url := Suc (next_url st),
                  created := created st @ [(next_url st, (b, mime))] \<rparr>) (length buffers)"
    unfolding queue_urls_def by (subst upt_rec) simp
  show ?case
    by (simp add: Cons.IH createObjectURL_def u)
qed

lemma revoke_loop_eq:
  "revoke_loop i st = st\<lparr> revoked := revoked st @ drop i (currentUrls st) \<rparr>"
proof (induction i st rule: revoke_loop.induct)
  case (1 i st)
  show ?case
  proof (cases "i < length (currentUrls st)")
    case True
    have "drop i (currentUrls st) = currentUrls st ! i # drop (Suc i) (currentUrls st)"
      using True by (simp add: Cons_nth_drop_Suc)
    with 1[OF True] True show ?thesis
      by (subst revoke_loop.simps) (simp add: revokeObjectURL_def)
  next
    case False
    then show ?thesis
      by (subst revoke_loop.simps) simp
  qed
qed

lemma run_Nil: "run [] st = st"
  by (simp add: run_def)

lemma run_Cons: "run (e # es) st = run es (step st e)"
  by (simp add: run_def)

lemma run_append: "run (es @ fs) st = run fs (run es st)"
  by (simp add: run_def)

lemma run_replicate_Suc:
  "run (replicate (Suc k) Ended) st = ended (run (replicate k Ended) st)"
proof -
  have "replicate (Suc k) Ended = replicate k Ended @ [Ended]"
    by (simp add: replicate_append_same)
  then show ?thesis by (simp only: run_append) (simp add: run_def)
qed

lemma ended_idle: "\<not> player_playing st \<Longrightarrow> ended st = st"
  by (simp add: ended_def)

lemma run_ended_idle: "\<not> player_playing st \<Longrightarrow> run (replicate m Ended) st = st"
proof (induction m)
  case 0
  show ?case by (simp add: run_Nil)
next
  case (Suc m)
  then show ?case by (simp only: run_replicate_Suc) (simp add: ended_idle)
qed

lemma start_playback_fields:
  "currentUrls (start_playback mime buffers st) = queue_urls st (length buffers)"
  "currentIndex (start_playback mime buffers st) = 0"
  "created (start_playback mime buffers st)
     = created st @ zip (queue_urls st (length buffers)) (map (\<lambda>b. (b, mime)) buffers)"
  "revoked (start_playback mime buffers st) = revoked st"
  by (simp_all add: start_playback_def create_urls_eq playNext_def Let_def)

lemma queue_urls_length: "length (queue_urls st n) = n"
  by (simp add: queue_urls_def)

lemma queue_urls_distinct: "distinct (queue_urls st n)"
  by (simp add: queue_urls_def)

lemma start_playback_playing:
  assumes "buffers \<noteq> []"
  shows "playing_at st (queue_urls st (length buffers)) 0 (start_playback mime buffers st)"
proof -
  have ne: "queue_urls st (length buffers) \<noteq> []"
    using assms queue_urls_length[of st "length buffers"] by auto
  then have "take (Suc 0) (queue_urls st (length buffers)) = [queue_urls st (length buffers) ! 0]"
    by (cases "queue_urls st (length buffers)") simp_all
  then show ?thesis using assms ne
    by (simp add: playing_at_def start_playback_def create_urls_eq playNext_def Let_def
        queue_urls_length)
qed

lemma start_playback_empty:
  assumes "\<not> player_playing st"
  shows "finished_at st [] (start_playback mime [] st)"
  using assms
  by (simp add: finished_at_def start_playback_def playNext_def queue_urls_def)

lemma ended_playing:
  assumes "playing_at st0 urls k st"
  shows "if Suc k < length urls then playing_at st0 urls (Suc k) (ended st)
         else finished_at st0 urls (ended st)"
proof -
  from assms have k: "k < length urls" by (simp add: playing_at_def)
  have t: "take (Suc k) urls = take k urls @ [urls ! k]"
    using k by (simp add: take_Suc_conv_app_nth)
  show ?thesis
  proof (cases "Suc k < length urls")
    case True
    have "take (Suc (Suc k)) urls = take (Suc k) urls @ [urls ! Suc k]"
      using True by (simp add: take_Suc_conv_app_nth)
    with assms True t show ?thesis
      by (simp add: playing_at_def ended_def onended_handler_def revokeObjectURL_def
          playNext_def Let_def)
  next
    case False
    with k have "Suc k = length urls" by simp
    then have "take (Suc k) urls = urls" by simp
    with assms False t \<open>Suc k = length urls\<close> show ?thesis
      by (simp add: playing_at_def finished_at_def ended_def onended_handler_def
          revokeObjectURL_def playNext_def Let_def)
  qed
qed

lemma run_ended_playing:
  assumes "playing_at st0 urls 0 st" "k \<le> length urls"
  shows "if k < length urls then playing_at st0 urls k (run (replicate k Ended) st)
         else finished_at st0 urls (run (replicate k Ended) st)"
  using assms(2)
proof (induction k)
  case 0
  with assms(1) show ?case by (simp add: run_Nil playing_at_def)
next
  case (Suc k)
  then have "playing_at st0 urls k (run (replicate k Ended) st)" by simp
  from ended_playing[OF this] Suc.prems show ?case
    by (simp only: run_replicate_Suc)
qed

lemma ended_keeps:
  "created (ended st) = created st" "next_url (ended st) = next_url st"
  by (simp_all add: ended_def onended_handler_def revokeObjectURL_def playNext_def Let_def
      split: option.splits)

lemma run_ended_keeps:
  "created (run (replicate k Ended) st) = created st"
proof (induction k)
  case 0
  show ?case by (simp add: run_Nil)
next
  case (Suc k)
  then show ?case by (simp only: run_replicate_Suc) (simp add: ended_keeps)
qed

lemma stopPlayback_fields:
  "currentUrls (stopPlayback st) = []"
  "currentIndex (stopPlayback st) = 0"
  "\<not> player_playing (stopPlayback st)"
  "\<not> startBtn_disabled (stopPlayback st)"
  "revoked (stopPlayback st) = revoked st @ drop (currentIndex st) (currentUrls st)"
  "played (stopPlayback st) = played st"
  "created (stopPlayback st) = created st"
  by (simp_all add: stopPlayback_def revoke_loop_eq Let_def)

lemma count_list_distinct:
  "distinct xs \<Longrightarrow> x \<in> set xs \<Longrightarrow> count_list xs x = 1"
  by (induction xs) (auto simp: count_list_0_iff)

text \<open>
  C8. From a controller that is not playing, start a queue of buffers, let \<open>k\<close> segments
  end, then cancel. The object URLs are created in buffer order and are distinct; the
  sources played are the first \<open>k + 1\<close> of them, in order (all of them when every
  segment has ended); the \<open>k\<close> segments that ended released their URLs in order;
  \<open>cancel\<close> releases the URL of the current index and every later one, plays and creates
  nothing, and after it no \<open>ended\<close> event changes the state. Over the whole run every URL
  of the queue is released exactly once. For buffers \<open>[b0, b1, b2]\<close> and a cancel while
  index 1 plays: played 0, 1; released 0 by its end, 1 and 2 by the cancel.
\<close>

theorem playback_releases_once:
  assumes idle0: "\<not> player_playing st0" and k: "k \<le> length buffers"
  shows "let urls = queue_urls st0 (length buffers);
             st1 = run (Start mime buffers # replicate k Ended) st0;
             st2 = run [Cancel] st1
         in distinct urls
          \<and> created st1 = created st0 @ zip urls (map (\<lambda>b. (b, mime)) buffers)
          \<and> played st1 = played st0 @ take (Suc k) urls
          \<and> revoked st1 = revoked st0 @ take k urls
          \<and> (k = length buffers \<longrightarrow> \<not> player_playing st1)
          \<and> revoked st2 = revoked st1 @ drop k urls
          \<and> played st2 = played st1 \<and> created st2 = created st1
          \<and> (\<forall>u \<in> set urls. count_list (drop (length (revoked st0)) (revoked st2)) u = 1)
          \<and> \<not> player_playing st2
          \<and> (\<forall>m. run (replicate m Ended) st2 = st2)"
proof -
  define urls where "urls = queue_urls st0 (length buffers)"
  define sta where "sta = start_playback mime buffers st0"
  define st1 where "st1 = run (Start mime buffers # replicate k Ended) st0"
  define st2 where "st2 = run [Cancel] st1"
  have st1: "st1 = run (replicate k Ended) sta"
    by (simp add: st1_def sta_def run_Cons)
  have st2: "st2 = stopPlayback st1"
    by (simp add: st2_def run_Cons run_Nil)
  have len: "length urls = length buffers"
    by (simp add: urls_def queue_urls_length)
  have dist: "distinct urls"
    by (simp add: urls_def queue_urls_distinct)
  have cr: "created st1 = created st0 @ zip urls (map (\<lambda>b. (b, mime)) buffers)"
    by (simp add: st1 sta_def run_ended_keeps start_playback_fields urls_def)
  have shape: "currentUrls st1 = urls \<and> currentIndex st1 = k
             \<and> played st1 = played st0 @ take (Suc k) urls
             \<and> revoked st1 = revoked st0 @ take k urls
             \<and> (k = length buffers \<longrightarrow> \<not> player_playing st1)"
  proof (cases "buffers = []")
    case True
    then have "k = 0" using k by simp
    with True start_playback_empty[OF idle0, of mime] show ?thesis
      by (simp add: st1 sta_def run_Nil finished_at_def urls_def queue_urls_def)
  next
    case False
    from start_playback_playing[OF False, of st0 mime]
    have "playing_at st0 urls 0 sta" by (simp add: urls_def sta_def)
    from run_ended_playing[OF this, of k] k len
    have c: "if k < length urls then playing_at st0 urls k st1 else finished_at st0 urls st1"
      unfolding st1 by auto
    show ?thesis
    proof (cases "k < length urls")
      case True
      with c len show ?thesis by (simp add: playing_at_def)
    next
      case False
      with k len have "k = length urls" by simp
      with c len show ?thesis by (simp add: finished_at_def)
    qed
  qed
  have rv2: "revoked st2 = revoked st1 @ drop k urls"
    using shape by (simp add: st2 stopPlayback_fields)
  have rest2: "played st2 = played st1" "created st2 = created st1" "\<not> player_playing st2"
    by (simp_all add: st2 stopPlayback_fields)
  have "revoked st2 = revoked st0 @ urls"
    using rv2 shape by simp
  then have "drop (length (revoked st0)) (revoked st2) = urls" by simp
  then have once: "\<forall>u \<in> set urls. count_list (drop (length (revoked st0)) (revoked st2)) u = 1"
    using dist by (simp add: count_list_distinct)
  have quiet: "\<forall>m. run (replicate m Ended) st2 = st2"
    using rest2(3) by (simp add: run_ended_idle)
  from dist cr shape rv2 rest2 once quiet show ?thesis
    unfolding Let_def urls_def[symmetric] st1_def[symmetric] st2_def[symmetric]
    by (intro conjI) simp_all
qed

theorem playback_releases_once_witness:
  "\<not> player_playing idle \<and> (1::nat) \<le> length [[1], [2], [3::byte]]
   \<and> map fst (created (run [Start (js ''audio/mpeg'') [[1], [2], [3]], Ended] idle)) = [0, 1, 2]
   \<and> played (run [Start (js ''audio/mpeg'') [[1], [2], [3]], Ended] idle) = [0, 1]
   \<and> revoked (run [Start (js ''audio/mpeg'') [[1], [2], [3]], Ended] idle) = [0]
   \<and> revoked (run [Start (js ''audio/mpeg'') [[1], [2], [3]], Ended, Cancel] idle) = [0, 1, 2]
   \<and> played (run [Start (js ''audio/mpeg'') [[1], [2], [3]], Ended, Cancel] idle) = [0, 1]
   \<and> run [Ended] (run [Start (js ''audio/mpeg'') [[1], [2], [3]], Ended, Cancel] idle)
       = run [Start (js ''audio/mpeg'') [[1], [2], [3]], Ended, Cancel] idle"
proof -
  let ?m = "js ''audio/mpeg''"
  let ?b = "[[1], [2], [3::byte]]"
  have h1: "\<not> player_playing idle" by (simp add: idle_def)
  have h2: "(1::nat) \<le> length ?b" by simp
  have q: "queue_urls idle (length ?b) = [0, 1, 2]"
    by (simp add: queue_urls_def idle_def)
  have e1: "run (Start ?m ?b # replicate 1 Ended) idle = run [Start ?m ?b, Ended] idle"
    by simp
  have e2: "run [Cancel] (run [Start ?m ?b, Ended] idle) = run [Start ?m ?b, Ended, Cancel] idle"
    by (simp add: run_def)
  have e3: "replicate 1 Ended = [Ended]" by simp
  have i: "created idle = []" "played idle = []" "revoked idle = []"
    by (simp_all add: idle_def)
  note th = playback_releases_once[OF h1 h2, of ?m, unfolded Let_def q e1 e2 i]
  have a: "map fst (created (run [Start ?m ?b, Ended] idle)) = [0, 1, 2]"
    using th by simp
  have b: "played (run [Start ?m ?b, Ended] idle) = [0, 1]"
    using th by simp
  have c: "revoked (run [Start ?m ?b, Ended] idle) = [0]"
    using th by simp
  have d: "revoked (run [Start ?m ?b, Ended, Cancel] idle) = [0, 1, 2]"
    using th by simp
  have e: "played (run [Start ?m ?b, Ended, Cancel] idle) = [0, 1]"
    using th by simp
  have "\<forall>m. run (replicate m Ended) (run [Start ?m ?b, Ended, Cancel] idle)
           = run [Start ?m ?b, Ended, Cancel] idle"
    using th by blast
  from this[rule_format, of 1]
  have f: "run [Ended] (run [Start ?m ?b, Ended, Cancel] idle)
       = run [Start ?m ?b, Ended, Cancel] idle"
    by (simp only: e3)
  show ?thesis
    by (intro conjI; (rule h1 h2 a b c d e f))
qed

text \<open>
  C9, as the claim states it, fails in the Finished state: when the last segment ends,
  \<open>playNext\<close> resets the two buttons and nothing else. After one buffer has played to
  its end the queue still holds its URL and the cursor is 1.
\<close>

theorem finished_state_counterexample:
  "currentUrls (run [Start (js ''audio/mpeg'') [[1]], Ended] idle) = [0]
   \<and> currentIndex (run [Start (js ''audio/mpeg'') [[1]], Ended] idle) = 1
   \<and> \<not> player_playing (run [Start (js ''audio/mpeg'') [[1]], Ended] idle)
   \<and> \<not> startBtn_disabled (run [Start (js ''audio/mpeg'') [[1]], Ended] idle)"
  by (simp add: run_def start_playback_def createObjectURL_def playNext_def ended_def
      onended_handler_def revokeObjectURL_def idle_def Let_def)

text \<open>
  C9, amended. Cancelled: the queue is empty and the cursor is 0. Finished: the queue
  still holds its URLs, every one of them released, and the cursor is the length of the
  queue. In both states nothing plays and the start button is enabled, and a new start
  replaces the queue and sets the cursor to 0.
\<close>

theorem terminal_states:
  assumes "\<not> player_playing st0"
  shows "let urls = queue_urls st0 (length buffers);
             fin = run (Start mime buffers # replicate (length buffers) Ended) st0
         in currentUrls (run [Cancel] st) = [] \<and> currentIndex (run [Cancel] st) = 0
          \<and> \<not> player_playing (run [Cancel] st) \<and> \<not> startBtn_disabled (run [Cancel] st)
          \<and> currentUrls fin = urls \<and> currentIndex fin = length buffers
          \<and> set (currentUrls fin) \<subseteq> set (revoked fin)
          \<and> \<not> player_playing fin \<and> \<not> startBtn_disabled fin
          \<and> currentUrls (run [Start mime' buffers'] st') = queue_urls st' (length buffers')
          \<and> currentIndex (run [Start mime' buffers'] st') = 0"
proof -
  define urls where "urls = queue_urls st0 (length buffers)"
  define sta where "sta = start_playback mime buffers st0"
  define fin where "fin = run (Start mime buffers # replicate (length buffers) Ended) st0"
  have fin: "fin = run (replicate (length buffers) Ended) sta"
    by (simp add: fin_def sta_def run_Cons)
  have len: "length urls = length buffers"
    by (simp add: urls_def queue_urls_length)
  have f: "finished_at st0 urls fin"
  proof (cases "buffers = []")
    case True
    with start_playback_empty[OF assms, of mime] show ?thesis
      by (simp add: fin sta_def run_Nil urls_def queue_urls_def)
  next
    case False
    from start_playback_playing[OF False, of st0 mime]
    have "playing_at st0 urls 0 sta" by (simp add: urls_def sta_def)
    from run_ended_playing[OF this, of "length buffers"] len show ?thesis
      unfolding fin by auto
  qed
  have cancelled: "currentUrls (run [Cancel] st) = []" "currentIndex (run [Cancel] st) = 0"
    "\<not> player_playing (run [Cancel] st)" "\<not> startBtn_disabled (run [Cancel] st)"
    by (simp_all add: run_Cons run_Nil stopPlayback_fields)
  have finished: "currentUrls fin = urls" "currentIndex fin = length buffers"
    "set (currentUrls fin) \<subseteq> set (revoked fin)" "\<not> player_playing fin"
    "\<not> startBtn_disabled fin"
    using f len by (simp_all add: finished_at_def)
  have again: "currentUrls (run [Start mime' buffers'] st') = queue_urls st' (length buffers')"
    "currentIndex (run [Start mime' buffers'] st') = 0"
    by (simp_all add: run_Cons run_Nil start_playback_fields)
  from cancelled finished again show ?thesis
    unfolding Let_def urls_def[symmetric] fin_def[symmetric]
    by (intro conjI)
qed

theorem terminal_states_witness:
  "\<not> player_playing idle
   \<and> currentUrls (run [Start (js ''audio/mpeg'') [[1], [2]], Ended, Ended] idle) = [0, 1]
   \<and> currentIndex (run [Start (js ''audio/mpeg'') [[1], [2]], Ended, Ended] idle) = 2
   \<and> currentUrls (run [Cancel] (run [Start (js ''audio/mpeg'') [[1], [2]], Ended] idle)) = []
   \<and> currentIndex (run [Cancel] (run [Start (js ''audio/mpeg'') [[1], [2]], Ended] idle)) = 0"
proof -
  let ?m = "js ''audio/mpeg''"
  let ?b = "[[1], [2::byte]]"
  have h: "\<not> player_playing idle" by (simp add: idle_def)
  have q: "queue_urls idle (length ?b) = [0, 1]"
    by (simp add: queue_urls_def idle_def)
  have e1: "run (Start ?m ?b # replicate (length ?b) Ended) idle
              = run [Start ?m ?b, Ended, Ended] idle"
    by (simp add: numeral_2_eq_2)
  note th = terminal_states[OF h, of ?b ?m "run [Start ?m ?b, Ended] idle",
      unfolded Let_def q e1]
  have a: "currentUrls (run [Start ?m ?b, Ended, Ended] idle) = [0, 1]"
    using th by blast
  have b: "currentIndex (run [Start ?m ?b, Ended, Ended] idle) = 2"
    using th by simp
  have c: "currentUrls (run [Cancel] (run [Start ?m ?b, Ended] idle)) = []"
    using th by blast
  have d: "currentIndex (run [Cancel] (run [Start ?m ?b, Ended] idle)) = 0"
    using th by blast
  show ?thesis
    by (intro conjI; (rule h a b c d))
qed

end
